theory Spec2Isabelle
  imports Main "HOL-Library.Sublist" "HOL-Library.List_Lexorder" "HOL-Library.Multiset"
begin

type_synonym codepoint = nat
type_synonym pystr = "codepoint list"

definition lit :: "string \<Rightarrow> pystr" where
  "lit cs = map of_char cs"

definition is_space :: "codepoint \<Rightarrow> bool" where
  "is_space c \<longleftrightarrow>
     (9 \<le> c \<and> c \<le> 13) \<or> (28 \<le> c \<and> c \<le> 32) \<or> c = 133 \<or> c = 160 \<or> c = 5760 \<or>
     (8192 \<le> c \<and> c \<le> 8202) \<or> c = 8232 \<or> c = 8233 \<or> c = 8239 \<or> c = 8287 \<or> c = 12288"

datatype rx = Lit pystr | WsStar

fun match_here :: "rx list \<Rightarrow> pystr \<Rightarrow> nat option" where
  "match_here [] s = Some 0"
| "match_here (Lit l # ps) s =
     (if prefix l s then map_option (\<lambda>n. length l + n) (match_here ps (drop (length l) s))
      else None)"
| "match_here (WsStar # ps) [] = match_here ps []"
| "match_here (WsStar # ps) (c # cs) =
     (if is_space c then
        (case match_here (WsStar # ps) cs of
           Some n \<Rightarrow> Some (Suc n)
         | None \<Rightarrow> match_here ps (c # cs))
      else match_here ps (c # cs))"

fun search_from :: "rx list \<Rightarrow> pystr \<Rightarrow> nat \<Rightarrow> (nat \<times> nat) option" where
  "search_from ps [] i = map_option (\<lambda>n. (i, i + n)) (match_here ps [])"
| "search_from ps (c # cs) i =
     (case match_here ps (c # cs) of
        Some n \<Rightarrow> Some (i, i + n)
      | None \<Rightarrow> search_from ps cs (Suc i))"

definition re_search :: "rx list \<Rightarrow> pystr \<Rightarrow> (nat \<times> nat) option" where
  "re_search ps s = search_from ps s 0"

fun find_from :: "pystr \<Rightarrow> pystr \<Rightarrow> nat \<Rightarrow> int" where
  "find_from sub [] i = (if sub = [] then int i else - 1)"
| "find_from sub (c # cs) i =
     (if prefix sub (c # cs) then int i else find_from sub cs (Suc i))"

definition str_find :: "pystr \<Rightarrow> pystr \<Rightarrow> int" where
  "str_find s sub = find_from sub s 0"

definition CONTENT_TAG :: pystr where
  \<open>CONTENT_TAG = lit ''<div class="content">''\<close>

definition DIV_CLOSE :: pystr where
  "DIV_CLOSE = lit ''</div>''"

definition BODY_CLOSE :: pystr where
  "BODY_CLOSE = lit ''</body>''"

definition START_RE :: "rx list" where
  "START_RE = [Lit CONTENT_TAG]"

definition END_RE :: "rx list" where
  "END_RE = [WsStar, Lit DIV_CLOSE, WsStar, Lit DIV_CLOSE, WsStar, Lit BODY_CLOSE]"

definition END_RE_FALLBACK :: "rx list" where
  "END_RE_FALLBACK = [Lit DIV_CLOSE, WsStar, Lit DIV_CLOSE, WsStar, Lit BODY_CLOSE]"

definition read_existing_html :: "pystr \<Rightarrow> pystr \<times> pystr" where
  "read_existing_html content =
     (let content_start_match = re_search START_RE content;
          content_end_match = re_search END_RE content
      in case (content_start_match, content_end_match) of
           (Some (s0, s1), Some (e0, e1)) \<Rightarrow> (take s1 content, drop e0 content)
         | _ \<Rightarrow>
           (let start_idx = str_find content CONTENT_TAG in
            if start_idx \<noteq> - 1 then
              (case re_search END_RE_FALLBACK content of
                 Some (e0, e1) \<Rightarrow>
                   (take (nat (start_idx + int (length CONTENT_TAG))) content, drop e0 content)
               | None \<Rightarrow> (content, []))
            else (content, [])))"

definition primary_ok :: "pystr \<Rightarrow> bool" where
  "primary_ok content \<longleftrightarrow>
     re_search START_RE content \<noteq> None \<and> re_search END_RE content \<noteq> None"

definition fallback_ok :: "pystr \<Rightarrow> bool" where
  "fallback_ok content \<longleftrightarrow>
     str_find content CONTENT_TAG \<noteq> - 1 \<and> re_search END_RE_FALLBACK content \<noteq> None"

definition read_two_case :: "pystr \<Rightarrow> pystr \<times> pystr" where
  "read_two_case content =
     (case (re_search START_RE content, re_search END_RE content) of
        (Some (s0, s1), Some (e0, e1)) \<Rightarrow> (take s1 content, drop e0 content)
      | _ \<Rightarrow> (content, []))"

definition closing_here :: "pystr \<Rightarrow> bool" where
  "closing_here r \<longleftrightarrow>
     prefix DIV_CLOSE r \<and>
     prefix DIV_CLOSE (dropWhile is_space (drop (length DIV_CLOSE) r)) \<and>
     prefix BODY_CLOSE
       (dropWhile is_space
         (drop (length DIV_CLOSE) (dropWhile is_space (drop (length DIV_CLOSE) r))))"

definition occurs_at :: "pystr \<Rightarrow> pystr \<Rightarrow> nat \<Rightarrow> bool" where
  "occurs_at sub s k \<longleftrightarrow> k \<le> length s \<and> prefix sub (drop k s)"

definition first_occurrence :: "pystr \<Rightarrow> pystr \<Rightarrow> nat \<Rightarrow> bool" where
  "first_occurrence sub s k \<longleftrightarrow> occurs_at sub s k \<and> (\<forall>j<k. \<not> occurs_at sub s j)"

definition closing_at :: "pystr \<Rightarrow> nat \<Rightarrow> bool" where
  "closing_at s k \<longleftrightarrow> k \<le> length s \<and> closing_here (drop k s)"

definition first_closing :: "pystr \<Rightarrow> nat \<Rightarrow> bool" where
  "first_closing s p \<longleftrightarrow> closing_at s p \<and> (\<forall>j<p. \<not> closing_at s j)"

definition trailing_ws :: "pystr \<Rightarrow> pystr" where
  "trailing_ws s = rev (takeWhile is_space (rev s))"

definition ws_before :: "pystr \<Rightarrow> nat \<Rightarrow> nat" where
  "ws_before s p = p - length (trailing_ws (take p s))"

fun str_replace :: "pystr \<Rightarrow> pystr \<Rightarrow> pystr \<Rightarrow> pystr" where
  "str_replace [] new s = new @ concat (map (\<lambda>c. c # new) s)"
| "str_replace (a # old) new [] = []"
| "str_replace (a # old) new (c # cs) =
     (if prefix (a # old) (c # cs)
      then new @ str_replace (a # old) new (drop (length old) cs)
      else c # str_replace (a # old) new cs)"

fun str_join :: "pystr \<Rightarrow> pystr list \<Rightarrow> pystr" where
  "str_join sep [] = []"
| "str_join sep [x] = x"
| "str_join sep (x # y # ys) = x @ sep @ str_join sep (y # ys)"

definition DECIMAL_ZEROS :: "codepoint list" where
  "DECIMAL_ZEROS =
     [48, 1632, 1776, 1984, 2406, 2534, 2662, 2790, 2918, 3046, 3174, 3302, 3430, 3558,
      3664, 3792, 3872, 4160, 4240, 6112, 6160, 6470, 6608, 6784, 6800, 6992, 7088, 7232,
      7248, 42528, 43216, 43264, 43472, 43504, 43600, 44016, 65296, 66720, 68912, 69734,
      69872, 69942, 70096, 70384, 70736, 70864, 71248, 71360, 71472, 71904, 72016, 72784,
      73040, 73120, 92768, 92864, 93008, 120782, 120792, 120802, 120812, 120822, 123200,
      123632, 125264, 130032]"

definition decimal_value :: "codepoint \<Rightarrow> nat option" where
  "decimal_value c =
     (case find (\<lambda>z. z \<le> c \<and> c < z + 10) DECIMAL_ZEROS of
        Some z \<Rightarrow> Some (c - z)
      | None \<Rightarrow> None)"

definition is_decimal :: "codepoint \<Rightarrow> bool" where
  "is_decimal c \<longleftrightarrow> decimal_value c \<noteq> None"

definition in_range :: "codepoint \<Rightarrow> codepoint \<Rightarrow> codepoint \<Rightarrow> bool" where
  "in_range lo hi c \<longleftrightarrow> lo \<le> c \<and> c \<le> hi"

fun match_classes :: "(codepoint \<Rightarrow> bool) list \<Rightarrow> pystr \<Rightarrow> (pystr \<times> pystr) option" where
  "match_classes [] s = Some ([], s)"
| "match_classes (p # ps) [] = None"
| "match_classes (p # ps) (c # cs) =
     (if p c then map_option (\<lambda>(m, r). (c # m, r)) (match_classes ps cs) else None)"

fun match_group ::
  "(codepoint \<Rightarrow> bool) list list \<Rightarrow> pystr \<Rightarrow> (pystr \<Rightarrow> pystr \<Rightarrow> 'a option) \<Rightarrow> 'a option" where
  "match_group [] s k = None"
| "match_group (alt # alts) s k =
     (case match_classes alt s of
        Some (m, r) \<Rightarrow>
          (case k m r of Some res \<Rightarrow> Some res | None \<Rightarrow> match_group alts s k)
      | None \<Rightarrow> match_group alts s k)"

definition Y_GROUP :: "(codepoint \<Rightarrow> bool) list list" where
  "Y_GROUP = [[is_decimal, is_decimal, is_decimal, is_decimal]]"

definition m_GROUP :: "(codepoint \<Rightarrow> bool) list list" where
  "m_GROUP = [[in_range 49 49, in_range 48 50], [in_range 48 48, in_range 49 57], [in_range 49 57]]"

definition d_GROUP :: "(codepoint \<Rightarrow> bool) list list" where
  "d_GROUP =
     [[in_range 51 51, in_range 48 49], [in_range 49 50, is_decimal],
      [in_range 48 48, in_range 49 57], [in_range 49 57], [in_range 32 32, in_range 49 57]]"

definition format_regex_match :: "pystr \<Rightarrow> (pystr \<times> pystr \<times> pystr \<times> pystr) option" where
  "format_regex_match s =
     match_group Y_GROUP s (\<lambda>Y r1.
       match_group m_GROUP r1 (\<lambda>m r2.
         match_group d_GROUP r2 (\<lambda>d r3. Some (Y, m, d, r3))))"

fun digits_value :: "pystr \<Rightarrow> nat \<Rightarrow> nat option" where
  "digits_value [] acc = Some acc"
| "digits_value (c # cs) acc =
     (case decimal_value c of
        Some v \<Rightarrow> digits_value cs (10 * acc + v)
      | None \<Rightarrow> None)"

definition py_int :: "pystr \<Rightarrow> nat option" where
  "py_int s =
     (let t = dropWhile is_space (rev (dropWhile is_space (rev s)))
      in if t = [] then None else digits_value t 0)"

definition is_leap :: "nat \<Rightarrow> bool" where
  "is_leap y \<longleftrightarrow> y mod 4 = 0 \<and> (y mod 100 \<noteq> 0 \<or> y mod 400 = 0)"

definition days_in_month :: "nat \<Rightarrow> nat \<Rightarrow> nat" where
  "days_in_month y m =
     (if m = 2 then (if is_leap y then 29 else 28)
      else if m = 4 \<or> m = 6 \<or> m = 9 \<or> m = 11 then 30 else 31)"

definition strptime :: "pystr \<Rightarrow> (nat \<times> nat \<times> nat) option" where
  "strptime s =
     (case format_regex_match s of
        None \<Rightarrow> None
      | Some (Y, m, d, rest) \<Rightarrow>
          if rest \<noteq> [] then None
          else
            (case (py_int Y, py_int m, py_int d) of
               (Some year, Some month, Some day) \<Rightarrow>
                 if 1 \<le> year \<and> year \<le> 9999 \<and> 1 \<le> month \<and> month \<le> 12 \<and>
                    1 \<le> day \<and> day \<le> days_in_month year month
                 then Some (year, month, day) else None
             | _ \<Rightarrow> None))"

definition MONTH_NAMES :: "pystr list" where
  "MONTH_NAMES =
     [lit ''January'', lit ''February'', lit ''March'', lit ''April'', lit ''May'', lit ''June'',
      lit ''July'', lit ''August'', lit ''September'', lit ''October'', lit ''November'',
      lit ''December'']"

definition digit_char :: "nat \<Rightarrow> codepoint" where
  "digit_char n = 48 + n mod 10"

fun show_nat :: "nat \<Rightarrow> pystr" where
  "show_nat n = (if n < 10 then [digit_char n] else show_nat (n div 10) @ [digit_char n])"

declare show_nat.simps [simp del]

definition pad2 :: "nat \<Rightarrow> pystr" where
  "pad2 n = (if n < 10 then 48 # show_nat n else show_nat n)"

definition strftime :: "nat \<times> nat \<times> nat \<Rightarrow> pystr" where
  "strftime dt =
     (case dt of (year, month, day) \<Rightarrow>
        MONTH_NAMES ! (month - 1) @ lit '' '' @ pad2 day @ lit '', '' @ show_nat year)"

definition DATE_UNKNOWN :: pystr where
  "DATE_UNKNOWN = lit ''Date unknown''"

definition format_date :: "pystr \<Rightarrow> pystr" where
  "format_date upload_date =
     (if upload_date = [] \<or> length upload_date \<noteq> 8 then DATE_UNKNOWN
      else (case strptime upload_date of
              Some date_obj \<Rightarrow> strftime date_obj
            | None \<Rightarrow> DATE_UNKNOWN))"

record video =
  title :: pystr
  video_id :: pystr
  url :: pystr
  upload_date :: pystr
  description :: pystr

definition SECTION_OPEN :: pystr where
  \<open>SECTION_OPEN = lit ''            <!-- Video Section -->\<newline>            <div class="video-section">\<newline>                <h2 class="video-title">''\<close>

definition SECTION_DATE :: pystr where
  \<open>SECTION_DATE = lit ''</h2>\<newline>                <p class="video-date">Published: ''\<close>

definition SECTION_LINK :: pystr where
  \<open>SECTION_LINK = lit ''</p>\<newline>                <a href="''\<close>

definition SECTION_CLOSE :: pystr where
  \<open>SECTION_CLOSE = lit ''" class="video-link" target="_blank">\<newline>                    '' @ [226, 8211, 182] @ lit '' Watch on YouTube\<newline>                </a>\<newline>                <div class="scripts-grid">\<newline>                    <!-- Add script files here -->\<newline>                </div>\<newline>            </div>''\<close>

definition escape_title :: "pystr \<Rightarrow> pystr" where
  "escape_title t =
     str_replace (lit ''>'') (lit ''&gt;'')
       (str_replace (lit ''<'') (lit ''&lt;'')
         (str_replace (lit ''&'') (lit ''&amp;'') t))"

definition generate_video_section_html :: "video \<Rightarrow> pystr" where
  "generate_video_section_html v =
     (let formatted_date = format_date (upload_date v);
          escaped = escape_title (title v)
      in SECTION_OPEN @ escaped @ SECTION_DATE @ formatted_date @ SECTION_LINK @ url v @
         SECTION_CLOSE)"

definition sort_key_of :: "video \<Rightarrow> pystr" where
  "sort_key_of x = (if upload_date x \<noteq> [] then upload_date x else lit ''00000000'')"

definition sorted_reverse :: "('a \<Rightarrow> 'k::linorder) \<Rightarrow> 'a list \<Rightarrow> 'a list" where
  "sorted_reverse key xs = rev (sort_key key (rev xs))"

definition videos_sorted :: "video list \<Rightarrow> video list" where
  "videos_sorted videos = sorted_reverse sort_key_of videos"

definition WRAPPER_OPEN :: pystr where
  \<open>WRAPPER_OPEN = lit ''        <div class="content">\<newline>''\<close>

definition WRAPPER_CLOSE :: pystr where
  "WRAPPER_CLOSE = lit ''\<newline>        </div>''"

definition video_sections :: "video list \<Rightarrow> pystr list" where
  "video_sections videos = map generate_video_section_html (videos_sorted videos)"

definition content_html :: "video list \<Rightarrow> pystr" where
  "content_html videos =
     WRAPPER_OPEN @ str_join (lit ''\<newline>'') (video_sections videos) @ WRAPPER_CLOSE"

definition complete_html :: "pystr \<Rightarrow> video list \<Rightarrow> pystr" where
  "complete_html existing videos =
     (case read_existing_html existing of
        (header, footer) \<Rightarrow> header @ content_html videos @ footer)"

definition esc_char :: "codepoint \<Rightarrow> pystr" where
  "esc_char c =
     (if c = 38 then lit ''&amp;'' else if c = 60 then lit ''&lt;''
      else if c = 62 then lit ''&gt;'' else [c])"

definition video_data :: "pystr \<Rightarrow> pystr \<Rightarrow> pystr \<Rightarrow> pystr \<Rightarrow> video" where
  "video_data entry_title entry_id entry_upload_date entry_description =
     \<lparr>title = entry_title, video_id = entry_id, url = lit ''https://youtu.be/'' @ entry_id,
      upload_date = entry_upload_date, description = entry_description\<rparr>"

definition EXAMPLE_FRAGMENT :: pystr where
  \<open>EXAMPLE_FRAGMENT = lit ''            <!-- Video Section -->\<newline>            <div class="video-section">\<newline>                <h2 class="video-title">A &amp; B</h2>\<newline>                <p class="video-date">Published: January 01, 2024</p>\<newline>                <a href="https://youtu.be/abc123" class="video-link" target="_blank">\<newline>                    '' @ [226, 8211, 182] @ lit '' Watch on YouTube\<newline>                </a>\<newline>                <div class="scripts-grid">\<newline>                    <!-- Add script files here -->\<newline>                </div>\<newline>            </div>''\<close>

definition dv :: "codepoint \<Rightarrow> nat" where
  "dv c = (case decimal_value c of Some v \<Rightarrow> v | None \<Rightarrow> 0)"

definition month_ok :: "codepoint \<Rightarrow> codepoint \<Rightarrow> bool" where
  "month_ok e f \<longleftrightarrow> (e = 49 \<and> in_range 48 50 f) \<or> (e = 48 \<and> in_range 49 57 f)"

definition day_ok :: "codepoint \<Rightarrow> codepoint \<Rightarrow> bool" where
  "day_ok g h \<longleftrightarrow>
     (g = 51 \<and> in_range 48 49 h) \<or> (in_range 49 50 g \<and> is_decimal h) \<or>
     (g = 48 \<and> in_range 49 57 h) \<or> (g = 32 \<and> in_range 49 57 h)"

definition unconverted :: "(pystr \<times> pystr \<times> pystr \<times> pystr) option \<Rightarrow> bool" where
  "unconverted res \<longleftrightarrow> (case res of None \<Rightarrow> True | Some (Y, m, d, rest) \<Rightarrow> rest \<noteq> [])"

definition year_of :: "pystr \<Rightarrow> nat" where
  "year_of s = foldl (\<lambda>acc c. 10 * acc + dv c) 0 (take 4 s)"

definition month_of :: "pystr \<Rightarrow> nat" where
  "month_of s = 10 * dv (s ! 4) + dv (s ! 5)"

definition day_of :: "pystr \<Rightarrow> nat" where
  "day_of s = 10 * dv (s ! 6) + dv (s ! 7)"

definition strptime_accepts :: "pystr \<Rightarrow> bool" where
  "strptime_accepts s \<longleftrightarrow>
     length s = 8 \<and> is_decimal (s ! 0) \<and> is_decimal (s ! 1) \<and> is_decimal (s ! 2) \<and>
     is_decimal (s ! 3) \<and> month_ok (s ! 4) (s ! 5) \<and> day_ok (s ! 6) (s ! 7) \<and>
     1 \<le> year_of s \<and> day_of s \<le> days_in_month (year_of s) (month_of s)"

definition valid_yyyymmdd :: "pystr \<Rightarrow> bool" where
  "valid_yyyymmdd s \<longleftrightarrow>
     length s = 8 \<and> (\<forall>c \<in> set s. in_range 48 57 c) \<and> 1 \<le> year_of s \<and>
     1 \<le> month_of s \<and> month_of s \<le> 12 \<and>
     1 \<le> day_of s \<and> day_of s \<le> days_in_month (year_of s) (month_of s)"

definition month_dd_yyyy :: "pystr \<Rightarrow> pystr" where
  "month_dd_yyyy s =
     MONTH_NAMES ! (month_of s - 1) @ lit '' '' @ [s ! 6, s ! 7] @ lit '', '' @ take 4 s"

type_synonym path = pystr

type_synonym bytes = "nat list"

record platform =
  linesep :: pystr
  stdout_encodable :: "codepoint \<Rightarrow> bool"

record world =
  files :: "path \<Rightarrow> bytes option"
  stdout :: "pystr list"

datatype error = FileNotFoundError path | UnicodeDecodeError path | UnicodeEncodeError

definition utf8_char :: "codepoint \<Rightarrow> bytes option" where
  "utf8_char c =
     (if c < 128 then Some [c]
      else if c < 2048 then Some [192 + c div 64, 128 + c mod 64]
      else if c < 65536 then
        (if 55296 \<le> c \<and> c \<le> 57343 then None
         else Some [224 + c div 4096, 128 + c div 64 mod 64, 128 + c mod 64])
      else if c < 1114112 then
        Some [240 + c div 262144, 128 + c div 4096 mod 64, 128 + c div 64 mod 64,
              128 + c mod 64]
      else None)"

fun utf8_encode :: "pystr \<Rightarrow> bytes option" where
  "utf8_encode [] = Some []"
| "utf8_encode (c # cs) =
     (case utf8_char c of
        None \<Rightarrow> None
      | Some b \<Rightarrow> map_option (\<lambda>r. b @ r) (utf8_encode cs))"

fun utf8_decode_from :: "nat \<Rightarrow> nat \<Rightarrow> nat \<Rightarrow> nat \<Rightarrow> bytes \<Rightarrow> pystr option" where
  "utf8_decode_from pending acc lo hi [] = (if pending = 0 then Some [] else None)"
| "utf8_decode_from pending acc lo hi (b # bs) =
     (if pending = 0 then
        (if b < 128 then map_option (\<lambda>r. b # r) (utf8_decode_from 0 0 128 191 bs)
         else if 194 \<le> b \<and> b \<le> 223 then utf8_decode_from 1 (b - 192) 128 191 bs
         else if 224 \<le> b \<and> b \<le> 239 then
           utf8_decode_from 2 (b - 224) (if b = 224 then 160 else 128)
             (if b = 237 then 159 else 191) bs
         else if 240 \<le> b \<and> b \<le> 244 then
           utf8_decode_from 3 (b - 240) (if b = 240 then 144 else 128)
             (if b = 244 then 143 else 191) bs
         else None)
      else if lo \<le> b \<and> b \<le> hi then
        (if pending = 1
         then map_option (\<lambda>r. (acc * 64 + (b - 128)) # r) (utf8_decode_from 0 0 128 191 bs)
         else utf8_decode_from (pending - 1) (acc * 64 + (b - 128)) 128 191 bs)
      else None)"

definition utf8_decode :: "bytes \<Rightarrow> pystr option" where
  "utf8_decode raw = utf8_decode_from 0 0 128 191 raw"

fun universal_newlines :: "bool \<Rightarrow> pystr \<Rightarrow> pystr" where
  "universal_newlines after_cr [] = []"
| "universal_newlines after_cr (c # cs) =
     (if c = 13 then 10 # universal_newlines True cs
      else if c = 10 \<and> after_cr then universal_newlines False cs
      else c # universal_newlines False cs)"

definition to_linesep :: "platform \<Rightarrow> pystr \<Rightarrow> pystr" where
  "to_linesep env text = concat (map (\<lambda>c. if c = 10 then linesep env else [c]) text)"

type_synonym outcome = "(error \<times> world) + world"

definition outcome_world :: "outcome \<Rightarrow> world" where
  "outcome_world r = (case r of Inl (e, w) \<Rightarrow> w | Inr w \<Rightarrow> w)"

definition then_do :: "outcome \<Rightarrow> (world \<Rightarrow> outcome) \<Rightarrow> outcome" where
  "then_do r f = (case r of Inl failure \<Rightarrow> Inl failure | Inr w \<Rightarrow> f w)"

definition read_text :: "path \<Rightarrow> world \<Rightarrow> error + pystr" where
  "read_text p w =
     (case files w p of
        None \<Rightarrow> Inl (FileNotFoundError p)
      | Some raw \<Rightarrow>
          (case utf8_decode raw of
             None \<Rightarrow> Inl (UnicodeDecodeError p)
           | Some text \<Rightarrow> Inr (universal_newlines False text)))"

definition write_text :: "platform \<Rightarrow> path \<Rightarrow> pystr \<Rightarrow> world \<Rightarrow> outcome" where
  "write_text env p text w =
     (case utf8_encode (to_linesep env text) of
        None \<Rightarrow> Inl (UnicodeEncodeError, w\<lparr>files := (files w)(p \<mapsto> [])\<rparr>)
      | Some raw \<Rightarrow> Inr (w\<lparr>files := (files w)(p \<mapsto> raw)\<rparr>))"

definition print :: "platform \<Rightarrow> pystr \<Rightarrow> world \<Rightarrow> outcome" where
  "print env line w =
     (if list_all (stdout_encodable env) (line @ [10])
      then Inr (w\<lparr>stdout := stdout w @ [line]\<rparr>)
      else Inl (UnicodeEncodeError, w))"

fun print_all :: "platform \<Rightarrow> pystr list \<Rightarrow> world \<Rightarrow> outcome" where
  "print_all env [] w = Inr w"
| "print_all env (line # lines) w = then_do (print env line w) (print_all env lines)"

definition RULE_60 :: pystr where
  "RULE_60 = replicate 60 61"

definition splitter_warning :: "platform \<Rightarrow> pystr \<Rightarrow> world \<Rightarrow> outcome" where
  "splitter_warning env existing w =
     (if primary_ok existing \<or> fallback_ok existing then Inr w
      else print env (lit ''Warning: Could not parse HTML structure. Using fallback.'') w)"

definition generate_html_file ::
  "platform \<Rightarrow> video list \<Rightarrow> path \<Rightarrow> bool \<Rightarrow> path option \<Rightarrow> world \<Rightarrow> outcome" where
  "generate_html_file env videos output_path dry_run output_text_file w =
     (case read_text output_path w of
        Inl e \<Rightarrow> Inl (e, w)
      | Inr existing \<Rightarrow>
          then_do (splitter_warning env existing w) (\<lambda>w1.
          then_do
            (case output_text_file of
               Some p \<Rightarrow>
                 then_do (write_text env p (complete_html existing videos) w1)
                   (print env (lit ''\<newline>Complete HTML written to: '' @ p))
             | None \<Rightarrow> Inr w1) (\<lambda>w2.
          if dry_run then
            print_all env
              [lit ''\<newline>Would generate HTML file with '' @
                 show_nat (length (videos_sorted videos)) @ lit '' video sections'',
               lit ''\<newline>'' @ RULE_60,
               lit ''PREVIEW OF GENERATED CONTENT:'',
               RULE_60,
               content_html videos,
               RULE_60] w2
          else
            then_do (write_text env output_path (complete_html existing videos) w2)
              (print env
                 (lit ''Generated HTML file with '' @ show_nat (length (videos_sorted videos)) @
                  lit '' video sections: '' @ output_path)))))"







definition encodable :: "pystr \<Rightarrow> bool" where
  "encodable text \<longleftrightarrow> (\<forall>c \<in> set text. utf8_char c \<noteq> None)"




definition EXAMPLE_DOCUMENT :: pystr where
  \<open>EXAMPLE_DOCUMENT = lit ''<body><div class="content">old</div></div></body>''\<close>


definition body_next :: "pystr \<Rightarrow> bool" where
  "body_next r \<longleftrightarrow> prefix BODY_CLOSE (dropWhile is_space r)"

definition div_body_next :: "pystr \<Rightarrow> bool" where
  "div_body_next r \<longleftrightarrow>
     prefix DIV_CLOSE (dropWhile is_space r) \<and>
     body_next (drop (length DIV_CLOSE) (dropWhile is_space r))"

definition separated :: "pystr \<Rightarrow> pystr \<Rightarrow> bool" where
  "separated u r \<longleftrightarrow> r = [] \<or> hd r = 60 \<or> (u \<noteq> [] \<and> last u = 62)"

definition closing_literal :: "pystr \<Rightarrow> bool" where
  "closing_literal L \<longleftrightarrow> L \<noteq> [] \<and> 60 \<notin> set (tl L) \<and> 62 \<notin> set (butlast L)"

lemmas literal_defs = lit_def CONTENT_TAG_def DIV_CLOSE_def BODY_CLOSE_def

lemmas splitter_eval = read_existing_html_def read_two_case_def primary_ok_def fallback_ok_def
  re_search_def str_find_def START_RE_def END_RE_def END_RE_FALLBACK_def literal_defs is_space_def

lemma search_from_None:
  "search_from ps s i = None \<longleftrightarrow> (\<forall>k \<le> length s. match_here ps (drop k s) = None)"
proof (induction s arbitrary: i)
  case Nil
  then show ?case by simp
next
  case (Cons c cs)
  show ?case
  proof (cases "match_here ps (c # cs)")
    case None
    have "(\<forall>k \<le> length (c # cs). match_here ps (drop k (c # cs)) = None)
          \<longleftrightarrow> (\<forall>k \<le> length cs. match_here ps (drop k cs) = None)"
    proof
      assume a: "\<forall>k \<le> length (c # cs). match_here ps (drop k (c # cs)) = None"
      show "\<forall>k \<le> length cs. match_here ps (drop k cs) = None"
      proof (intro allI impI)
        fix k assume "k \<le> length cs"
        then have "match_here ps (drop (Suc k) (c # cs)) = None" using a by (metis Suc_le_mono length_Cons)
        then show "match_here ps (drop k cs) = None" by simp
      qed
    next
      assume a: "\<forall>k \<le> length cs. match_here ps (drop k cs) = None"
      show "\<forall>k \<le> length (c # cs). match_here ps (drop k (c # cs)) = None"
      proof (intro allI impI)
        fix k assume k: "k \<le> length (c # cs)"
        show "match_here ps (drop k (c # cs)) = None"
        proof (cases k)
          case 0 then show ?thesis using None by simp
        next
          case (Suc j) then show ?thesis using a k by simp
        qed
      qed
    qed
    then show ?thesis using None Cons.IH by simp
  next
    case (Some n)
    then have "\<not> (\<forall>k \<le> length (c # cs). match_here ps (drop k (c # cs)) = None)"
      by (metis drop0 le0 option.distinct(1))
    then show ?thesis using Some by simp
  qed
qed

lemma match_ws_star_weaken:
  "match_here ps s \<noteq> None \<Longrightarrow> match_here (WsStar # ps) s \<noteq> None"
  by (induction s) (auto split: option.splits)

lemma match_ws_star_strip:
  "match_here (WsStar # ps) s \<noteq> None \<Longrightarrow> \<exists>k \<le> length s. match_here ps (drop k s) \<noteq> None"
proof (induction s)
  case Nil
  then show ?case by simp
next
  case (Cons c cs)
  show ?case
  proof (cases "is_space c \<and> match_here (WsStar # ps) cs \<noteq> None")
    case True
    then obtain k where "k \<le> length cs" "match_here ps (drop k cs) \<noteq> None"
      using Cons.IH by blast
    then have "Suc k \<le> length (c # cs) \<and> match_here ps (drop (Suc k) (c # cs)) \<noteq> None" by simp
    then show ?thesis by blast
  next
    case False
    then have "match_here ps (c # cs) \<noteq> None" using Cons.prems by (auto split: if_splits option.splits)
    then have "0 \<le> length (c # cs) \<and> match_here ps (drop 0 (c # cs)) \<noteq> None" by simp
    then show ?thesis by blast
  qed
qed

lemma find_from_neg: "find_from sub s i = - 1 \<longleftrightarrow> (\<forall>k \<le> length s. \<not> prefix sub (drop k s))"
proof (induction s arbitrary: i)
  case Nil
  then show ?case by auto
next
  case (Cons c cs)
  have "(\<forall>k \<le> length (c # cs). \<not> prefix sub (drop k (c # cs)))
        \<longleftrightarrow> \<not> prefix sub (c # cs) \<and> (\<forall>k \<le> length cs. \<not> prefix sub (drop k cs))"
    (is "?L \<longleftrightarrow> ?R")
  proof
    assume l: ?L
    have "\<not> prefix sub (c # cs)" using l by (metis drop0 le0)
    moreover have "\<forall>k \<le> length cs. \<not> prefix sub (drop k cs)"
    proof (intro allI impI)
      fix k assume "k \<le> length cs"
      then have "\<not> prefix sub (drop (Suc k) (c # cs))" using l by (metis Suc_le_mono length_Cons)
      then show "\<not> prefix sub (drop k cs)" by simp
    qed
    ultimately show ?R by simp
  next
    assume r: ?R
    show ?L
    proof (intro allI impI)
      fix k assume "k \<le> length (c # cs)"
      then show "\<not> prefix sub (drop k (c # cs))" using r by (cases k) auto
    qed
  qed
  then show ?case using Cons.IH by auto
qed

lemma re_search_None:
  "re_search ps s = None \<longleftrightarrow> (\<forall>k \<le> length s. match_here ps (drop k s) = None)"
  by (simp add: re_search_def search_from_None)

lemma str_find_neg:
  "str_find s sub = - 1 \<longleftrightarrow> (\<forall>k \<le> length s. \<not> prefix sub (drop k s))"
  by (simp add: str_find_def find_from_neg)

lemma re_search_found:
  "re_search ps s \<noteq> None \<longleftrightarrow> (\<exists>k \<le> length s. match_here ps (drop k s) \<noteq> None)"
  by (simp add: re_search_None)

lemma str_find_found:
  "str_find s sub \<noteq> - 1 \<longleftrightarrow> (\<exists>k \<le> length s. prefix sub (drop k s))"
  by (simp add: str_find_neg)

lemma match_single_lit: "match_here [Lit l] s \<noteq> None \<longleftrightarrow> prefix l s"
  by simp

lemma start_re_found: "re_search START_RE s \<noteq> None \<longleftrightarrow> str_find s CONTENT_TAG \<noteq> - 1"
  by (simp only: re_search_found str_find_found START_RE_def match_single_lit)

lemma end_re_found: "re_search END_RE s \<noteq> None \<longleftrightarrow> re_search END_RE_FALLBACK s \<noteq> None"
proof
  assume "re_search END_RE s \<noteq> None"
  then obtain k where k: "k \<le> length s" "match_here END_RE (drop k s) \<noteq> None"
    using re_search_found by blast
  then have "match_here (WsStar # END_RE_FALLBACK) (drop k s) \<noteq> None"
    by (simp add: END_RE_def END_RE_FALLBACK_def)
  then obtain j where j: "j \<le> length (drop k s)" "match_here END_RE_FALLBACK (drop j (drop k s)) \<noteq> None"
    using match_ws_star_strip by blast
  then have "j + k \<le> length s \<and> match_here END_RE_FALLBACK (drop (j + k) s) \<noteq> None"
    using k by simp
  then show "re_search END_RE_FALLBACK s \<noteq> None" using re_search_found by blast
next
  assume "re_search END_RE_FALLBACK s \<noteq> None"
  then obtain k where k: "k \<le> length s" "match_here END_RE_FALLBACK (drop k s) \<noteq> None"
    using re_search_found by blast
  then have "match_here (WsStar # END_RE_FALLBACK) (drop k s) \<noteq> None"
    using match_ws_star_weaken by blast
  then have "match_here END_RE (drop k s) \<noteq> None"
    by (simp add: END_RE_def END_RE_FALLBACK_def)
  then show "re_search END_RE s \<noteq> None" using k re_search_found by blast
qed

lemma read_existing_html_two_case: "read_existing_html content = read_two_case content"
proof (cases "re_search START_RE content")
  case None
  then have "str_find content CONTENT_TAG = - 1"
    using start_re_found [of content] by simp
  then show ?thesis using None
    by (simp add: read_existing_html_def read_two_case_def)
next
  case start: (Some a)
  show ?thesis
  proof (cases "re_search END_RE content")
    case None
    then have "re_search END_RE_FALLBACK content = None"
      using end_re_found [of content] by blast
    then show ?thesis using None start
      by (cases a) (simp add: read_existing_html_def read_two_case_def Let_def)
  next
    case (Some b)
    then show ?thesis using start
      by (cases a; cases b) (simp add: read_existing_html_def read_two_case_def)
  qed
qed

lemma read_two_case_cases:
  "read_two_case content = (content, []) \<or>
    (\<exists>s0 s1 e0 e1. re_search START_RE content = Some (s0, s1) \<and>
        re_search END_RE content = Some (e0, e1) \<and>
        read_two_case content = (take s1 content, drop e0 content))"
proof (cases "re_search START_RE content")
  case None
  then show ?thesis by (simp add: read_two_case_def)
next
  case start: (Some a)
  show ?thesis
  proof (cases "re_search END_RE content")
    case None
    then show ?thesis using start by (cases a) (simp add: read_two_case_def)
  next
    case (Some b)
    then show ?thesis using start by (cases a; cases b) (simp add: read_two_case_def)
  qed
qed

text \<open>
  Claim C9. The fallback branch of \<open>read_existing_html\<close> is unreachable: the fallback
  succeeds exactly when the primary strategy does, so the splitter equals the two-case
  version without the fallback and always returns either the primary result or the
  last-resort pair (whole text, empty footer).
\<close>

theorem fallback_unreachable:
  "(fallback_ok content \<longleftrightarrow> primary_ok content) \<and>
   read_existing_html content = read_two_case content \<and>
   (read_existing_html content = (content, []) \<or>
    (\<exists>s0 s1 e0 e1. re_search START_RE content = Some (s0, s1) \<and>
        re_search END_RE content = Some (e0, e1) \<and>
        read_existing_html content = (take s1 content, drop e0 content)))"
proof -
  have eq: "fallback_ok content \<longleftrightarrow> primary_ok content"
    using start_re_found [of content] end_re_found [of content]
    by (simp add: fallback_ok_def primary_ok_def)
  show ?thesis
  proof (intro conjI)
    show "fallback_ok content \<longleftrightarrow> primary_ok content" by (rule eq)
    show "read_existing_html content = read_two_case content"
      by (rule read_existing_html_two_case)
    show "read_existing_html content = (content, []) \<or>
      (\<exists>s0 s1 e0 e1. re_search START_RE content = Some (s0, s1) \<and>
        re_search END_RE content = Some (e0, e1) \<and>
        read_existing_html content = (take s1 content, drop e0 content))"
      using read_two_case_cases [of content]
      by (simp only: read_existing_html_two_case)
  qed
qed

theorem fallback_unreachable_witness:
  \<open>primary_ok (lit ''x<div class="content">old </div> </div></body>'') \<and>
   fallback_ok (lit ''x<div class="content">old </div> </div></body>'') \<and>
   read_existing_html (lit ''x<div class="content">old </div> </div></body>'') =
     (lit ''x<div class="content">'', lit '' </div> </div></body>'') \<and>
   \<not> fallback_ok (lit ''x<div class="content">old </div>'') \<and>
   read_existing_html (lit ''x<div class="content">old </div>'') =
     (lit ''x<div class="content">old </div>'', [])\<close>
  using fallback_unreachable [of \<open>lit ''x<div class="content">old </div> </div></body>''\<close>]
    fallback_unreachable [of \<open>lit ''x<div class="content">old </div>''\<close>]
  by (simp add: splitter_eval)

text \<open>
  Claim C3. The splitter is a total function of the text; when neither the primary nor the
  fallback strategy finds the boundaries it returns the whole text as header and the
  empty string as footer.
\<close>

theorem splitter_degrades:
  "\<not> primary_ok content \<Longrightarrow> \<not> fallback_ok content \<Longrightarrow> read_existing_html content = (content, [])"
proof -
  assume "\<not> primary_ok content"
  then have "re_search START_RE content = None \<or> re_search END_RE content = None"
    unfolding primary_ok_def by blast
  then have "read_two_case content = (content, [])"
    by (cases "re_search START_RE content") (auto simp: read_two_case_def)
  then show ?thesis by (simp add: read_existing_html_two_case)
qed

theorem splitter_degrades_witness:
  \<open>\<not> primary_ok (lit ''<html><body>plain</body></html>'') \<and>
   \<not> fallback_ok (lit ''<html><body>plain</body></html>'') \<and>
   read_existing_html (lit ''<html><body>plain</body></html>'') =
     (lit ''<html><body>plain</body></html>'', [])\<close>
proof -
  have a: \<open>\<not> primary_ok (lit ''<html><body>plain</body></html>'')\<close>
    by (simp add: splitter_eval)
  have b: \<open>\<not> fallback_ok (lit ''<html><body>plain</body></html>'')\<close>
    by (simp add: splitter_eval)
  show ?thesis using a b splitter_degrades [OF a b] by simp
qed


lemma DIV_CLOSE_Cons: "DIV_CLOSE = [60, 47, 100, 105, 118, 62]"
  by (simp add: literal_defs)

lemma BODY_CLOSE_Cons: "BODY_CLOSE = [60, 47, 98, 111, 100, 121, 62]"
  by (simp add: literal_defs)

lemma CONTENT_TAG_Cons:
  "CONTENT_TAG = [60, 100, 105, 118, 32, 99, 108, 97, 115, 115, 61, 34, 99, 111, 110, 116, 101, 110, 116, 34, 62]"
  by (simp add: literal_defs)

lemma not_space_lt [simp]: "\<not> is_space 60"
  by (simp add: is_space_def)

lemma not_space_gt [simp]: "\<not> is_space 62"
  by (simp add: is_space_def)

lemma match_ws_lit:
  assumes "l \<noteq> []" "\<not> is_space (hd l)"
  shows "match_here (WsStar # Lit l # ps) s =
     (if prefix l (dropWhile is_space s)
      then map_option (\<lambda>n. length (takeWhile is_space s) + length l + n)
             (match_here ps (drop (length l) (dropWhile is_space s)))
      else None)"
proof (induction s)
  case Nil
  then show ?case using assms by simp
next
  case (Cons c cs)
  show ?case
  proof (cases "is_space c")
    case True
    then have np: "\<not> prefix l (c # cs)"
      using assms by (cases l) auto
    show ?thesis using True np Cons.IH
      by (auto split: option.splits)
  next
    case False
    then show ?thesis by simp
  qed
qed

lemma match_ws_lit_found:
  assumes "l \<noteq> []" "\<not> is_space (hd l)"
  shows "match_here (WsStar # Lit l # ps) s \<noteq> None \<longleftrightarrow>
     prefix l (dropWhile is_space s) \<and> match_here ps (drop (length l) (dropWhile is_space s)) \<noteq> None"
  by (simp add: match_ws_lit [OF assms])

lemma match_lit_found:
  "match_here (Lit l # ps) s \<noteq> None \<longleftrightarrow>
     prefix l s \<and> match_here ps (drop (length l) s) \<noteq> None"
  by simp

lemma match_nil_found: "match_here [] s \<noteq> None \<longleftrightarrow> True"
  by simp

lemma match_fallback_closing: "match_here END_RE_FALLBACK r \<noteq> None \<longleftrightarrow> closing_here r"
proof -
  have d: "DIV_CLOSE \<noteq> []" "\<not> is_space (hd DIV_CLOSE)"
    by (simp_all add: DIV_CLOSE_Cons)
  have b: "BODY_CLOSE \<noteq> []" "\<not> is_space (hd BODY_CLOSE)"
    by (simp_all add: BODY_CLOSE_Cons)
  show ?thesis
    unfolding END_RE_FALLBACK_def closing_here_def
    by (simp only: match_lit_found match_ws_lit_found [OF d] match_ws_lit_found [OF b]
          match_nil_found simp_thms)
qed

lemma match_end_closing: "match_here END_RE s \<noteq> None \<longleftrightarrow> closing_here (dropWhile is_space s)"
proof -
  have d: "DIV_CLOSE \<noteq> []" "\<not> is_space (hd DIV_CLOSE)"
    by (simp_all add: DIV_CLOSE_Cons)
  have "match_here END_RE s \<noteq> None \<longleftrightarrow>
        prefix DIV_CLOSE (dropWhile is_space s) \<and>
        match_here (tl END_RE_FALLBACK) (drop (length DIV_CLOSE) (dropWhile is_space s)) \<noteq> None"
    unfolding END_RE_def END_RE_FALLBACK_def
    by (simp only: match_ws_lit_found [OF d] list.sel)
  also have "\<dots> \<longleftrightarrow> match_here END_RE_FALLBACK (dropWhile is_space s) \<noteq> None"
    unfolding END_RE_FALLBACK_def by (simp only: match_lit_found list.sel)
  finally show ?thesis by (simp only: match_fallback_closing)
qed

lemma search_from_first:
  assumes "match_here ps (drop k s) = Some n" "k \<le> length s"
    and "\<forall>j<k. match_here ps (drop j s) = None"
  shows "search_from ps s i = Some (i + k, i + k + n)"
  using assms
proof (induction s arbitrary: i k)
  case Nil
  then show ?case by simp
next
  case (Cons c cs)
  show ?case
  proof (cases k)
    case 0
    then show ?thesis using Cons.prems by simp
  next
    case (Suc k')
    have none0: "match_here ps (c # cs) = None"
      using Cons.prems(3) Suc by (metis drop0 zero_less_Suc)
    have "\<forall>j<k'. match_here ps (drop j cs) = None"
    proof (intro allI impI)
      fix j assume "j < k'"
      then have "match_here ps (drop (Suc j) (c # cs)) = None"
        using Cons.prems(3) Suc by (metis Suc_less_eq)
      then show "match_here ps (drop j cs) = None" by simp
    qed
    moreover have "match_here ps (drop k' cs) = Some n" "k' \<le> length cs"
      using Cons.prems Suc by simp_all
    ultimately have "search_from ps cs (Suc i) = Some (Suc i + k', Suc i + k' + n)"
      using Cons.IH by blast
    then show ?thesis using none0 Suc by simp
  qed
qed

lemma re_search_first:
  assumes "match_here ps (drop k s) = Some n" "k \<le> length s"
    and "\<forall>j<k. match_here ps (drop j s) = None"
  shows "re_search ps s = Some (k, k + n)"
  using search_from_first [OF assms, of 0] by (simp add: re_search_def)

lemma closing_here_hd: "closing_here r \<Longrightarrow> r \<noteq> [] \<and> hd r = 60"
  by (auto simp: closing_here_def DIV_CLOSE_Cons prefix_def)

lemma split_ws_before:
  assumes "p \<le> length s"
  shows "\<exists>A W. s = A @ W @ drop p s \<and> length A = ws_before s p \<and> W = trailing_ws (take p s)
            \<and> (A = [] \<or> \<not> is_space (last A))"
proof -
  let ?t = "take p s"
  let ?A = "rev (dropWhile is_space (rev ?t))"
  let ?W = "trailing_ws ?t"
  have t: "?t = ?A @ ?W"
  proof -
    have "rev (takeWhile is_space (rev ?t) @ dropWhile is_space (rev ?t)) = ?A @ ?W"
      by (simp only: rev_append trailing_ws_def)
    then show ?thesis by (simp only: takeWhile_dropWhile_id rev_rev_ident)
  qed
  have "s = ?t @ drop p s" by simp
  then have s: "s = ?A @ ?W @ drop p s" using t by (metis append.assoc)
  have "length ?t = p" using assms by simp
  then have "length ?A + length ?W = p" using t by (metis length_append)
  then have len: "length ?A = ws_before s p" by (simp add: ws_before_def)
  have "?A = [] \<or> \<not> is_space (last ?A)"
  proof (cases "dropWhile is_space (rev ?t)")
    case Nil
    then show ?thesis by simp
  next
    case (Cons a as)
    then have "\<not> is_space a" by (metis hd_dropWhile list.sel(1) list.distinct(1))
    then show ?thesis using Cons by simp
  qed
  then show ?thesis using s len by blast
qed

lemma trailing_ws_all: "\<forall>c \<in> set (trailing_ws s). is_space c"
  unfolding trailing_ws_def by (metis set_rev set_takeWhileD)

lemma dropWhile_ws_append:
  assumes "\<forall>c \<in> set W. is_space c"
  shows "dropWhile is_space (W @ r) = dropWhile is_space r"
  using assms by (induction W) auto

lemma dropWhile_suffix: "\<exists>k \<le> length s. dropWhile P s = drop k s"
proof -
  have "dropWhile P s = drop (length (takeWhile P s)) s"
    by (simp add: dropWhile_eq_drop)
  moreover have "length (takeWhile P s) \<le> length s" by (rule length_takeWhile_le)
  ultimately show ?thesis by blast
qed

lemma dropWhile_last_nonspace:
  assumes "u \<noteq> []" "\<not> P (last u)"
  shows "dropWhile P (u @ r) = dropWhile P u @ r \<and> dropWhile P u \<noteq> []"
proof -
  have "last u \<in> set u" using assms by simp
  then have ex: "\<exists>x \<in> set u. \<not> P x" using assms by blast
  then obtain x where "x \<in> set u" "\<not> P x" by blast
  then have "dropWhile P (u @ r) = dropWhile P u @ r"
    by (rule dropWhile_append1)
  moreover have "dropWhile P u \<noteq> []" using ex by (simp add: dropWhile_eq_Nil_conv)
  ultimately show ?thesis by simp
qed

lemma end_match_first:
  assumes "first_closing s p"
  shows "\<exists>n. re_search END_RE s = Some (ws_before s p, n)"
proof -
  from assms have p: "p \<le> length s" and cp: "closing_here (drop p s)"
    and np: "\<forall>j<p. \<not> closing_at s j"
    by (simp_all add: first_closing_def closing_at_def)
  obtain A W where s: "s = A @ W @ drop p s" and lenA: "length A = ws_before s p"
    and W: "W = trailing_ws (take p s)" and lastA: "A = [] \<or> \<not> is_space (last A)"
    using split_ws_before [OF p] by blast
  let ?q = "ws_before s p"
  have Wsp: "\<forall>c \<in> set W. is_space c" using W trailing_ws_all by simp
  have lenW: "length A + length W = p"
  proof -
    have "length s = length A + length W + length (drop p s)" using s by (metis length_append add.assoc)
    then show ?thesis using p by simp
  qed
  have q_le: "?q \<le> length s" using p by (simp add: ws_before_def)
  have dq: "drop ?q s = W @ drop p s"
    using s lenA by (metis append_eq_conv_conj)
  have "dropWhile is_space (drop p s) = drop p s"
    using closing_here_hd [OF cp] by (cases "drop p s") auto
  then have "dropWhile is_space (drop ?q s) = drop p s"
    using dq Wsp by (simp add: dropWhile_ws_append)
  then have at_q: "match_here END_RE (drop ?q s) \<noteq> None"
    using cp by (simp only: match_end_closing)
  have before: "\<forall>j<?q. match_here END_RE (drop j s) = None"
  proof (intro allI impI)
    fix j assume j: "j < ?q"
    then have Ane: "A \<noteq> []" using lenA by auto
    then have nsp: "\<not> is_space (last A)" using lastA by simp
    let ?u = "drop j A"
    have une: "?u \<noteq> []" using j lenA by simp
    have lastu: "last ?u = last A" using une by (simp add: last_drop)
    have dj: "drop j s = ?u @ (W @ drop p s)"
    proof -
      have "drop j s = drop j (A @ (W @ drop p s))" using s by simp
      also have "\<dots> = ?u @ (W @ drop p s)" using j lenA by simp
      finally show ?thesis .
    qed
    obtain k where k: "k \<le> length ?u" "dropWhile is_space ?u = drop k ?u"
      using dropWhile_suffix by blast
    have dne: "dropWhile is_space ?u \<noteq> []"
      and dw: "dropWhile is_space (?u @ (W @ drop p s)) = dropWhile is_space ?u @ (W @ drop p s)"
      using dropWhile_last_nonspace [of ?u is_space] une nsp lastu by simp_all
    have klt: "k < length ?u" using k dne by (cases "k = length ?u") auto
    have "dropWhile is_space (drop j s) = drop k ?u @ (W @ drop p s)"
      using dj dw k by simp
    also have "\<dots> = drop (j + k) s"
    proof -
      have "drop (j + k) s = drop k (drop j s)" by (simp add: add.commute)
      also have "\<dots> = drop k (?u @ (W @ drop p s))" using dj by simp
      also have "\<dots> = drop k ?u @ (W @ drop p s)" using k by simp
      finally show ?thesis by simp
    qed
    finally have dd: "dropWhile is_space (drop j s) = drop (j + k) s" .
    have "j + k < length A" using klt by simp
    then have "j + k < p" using lenW by simp
    then have "\<not> closing_at s (j + k)" using np by simp
    then have "\<not> closing_here (drop (j + k) s)" using \<open>j + k < p\<close> p by (simp add: closing_at_def)
    then have "\<not> closing_here (dropWhile is_space (drop j s))"
      using dd by simp
    then show "match_here END_RE (drop j s) = None"
      using match_end_closing [of "drop j s"] by blast
  qed
  from at_q obtain n where "match_here END_RE (drop ?q s) = Some n" by blast
  then have "re_search END_RE s = Some (?q, ?q + n)"
    using re_search_first q_le before by blast
  then show ?thesis by blast
qed

lemma start_match_first:
  assumes "first_occurrence CONTENT_TAG s i"
  shows "re_search START_RE s = Some (i, i + length CONTENT_TAG)"
proof -
  from assms have i: "i \<le> length s" and pi: "prefix CONTENT_TAG (drop i s)"
    and ni: "\<forall>j<i. \<not> occurs_at CONTENT_TAG s j"
    by (simp_all add: first_occurrence_def occurs_at_def)
  have m: "match_here START_RE (drop i s) = Some (length CONTENT_TAG)"
    using pi by (simp add: START_RE_def)
  have "\<forall>j<i. match_here START_RE (drop j s) = None"
  proof (intro allI impI)
    fix j assume "j < i"
    then have "\<not> occurs_at CONTENT_TAG s j" "j \<le> length s" using ni i by simp_all
    then show "match_here START_RE (drop j s) = None"
      by (simp add: occurs_at_def START_RE_def)
  qed
  then show ?thesis using re_search_first [OF m i] by simp
qed

lemma splitter_general:
  assumes "first_occurrence CONTENT_TAG s i" "first_closing s p"
  shows "read_existing_html s = (take (i + length CONTENT_TAG) s, drop (ws_before s p) s)"
proof -
  obtain n where "re_search END_RE s = Some (ws_before s p, n)"
    using end_match_first [OF assms(2)] by blast
  then show ?thesis
    using start_match_first [OF assms(1)] by (simp add: read_existing_html_def)
qed

lemma search_from_Some:
  "search_from ps s i = Some (a, b) \<Longrightarrow>
     \<exists>k n. a = i + k \<and> b = a + n \<and> k \<le> length s \<and> match_here ps (drop k s) = Some n \<and>
           (\<forall>j<k. match_here ps (drop j s) = None)"
proof (induction s arbitrary: i)
  case Nil
  then show ?case by auto
next
  case (Cons c cs)
  show ?case
  proof (cases "match_here ps (c # cs)")
    case (Some n)
    then have "a = i + 0 \<and> b = a + n \<and> 0 \<le> length (c # cs) \<and>
        match_here ps (drop 0 (c # cs)) = Some n \<and> (\<forall>j<0. match_here ps (drop j (c # cs)) = None)"
      using Cons.prems by auto
    then show ?thesis by blast
  next
    case None
    then have "search_from ps cs (Suc i) = Some (a, b)" using Cons.prems by simp
    then obtain k n where kn: "a = Suc i + k" "b = a + n" "k \<le> length cs"
        "match_here ps (drop k cs) = Some n" "\<forall>j<k. match_here ps (drop j cs) = None"
      using Cons.IH by blast
    have "\<forall>j<Suc k. match_here ps (drop j (c # cs)) = None"
    proof (intro allI impI)
      fix j assume "j < Suc k"
      then show "match_here ps (drop j (c # cs)) = None"
        using None kn(5) by (cases j) auto
    qed
    then have "a = i + Suc k \<and> b = a + n \<and> Suc k \<le> length (c # cs) \<and>
        match_here ps (drop (Suc k) (c # cs)) = Some n \<and>
        (\<forall>j<Suc k. match_here ps (drop j (c # cs)) = None)"
      using kn by simp
    then show ?thesis by blast
  qed
qed

lemma re_search_Some:
  assumes "re_search ps s = Some (a, b)"
  shows "a \<le> length s \<and> (\<exists>n. b = a + n \<and> match_here ps (drop a s) = Some n) \<and>
         (\<forall>j<a. match_here ps (drop j s) = None)"
  using search_from_Some [of ps s 0 a b] assms by (auto simp: re_search_def)

lemma start_match_shape:
  assumes "re_search START_RE s = Some (a, b)"
  shows "b = a + length CONTENT_TAG \<and> first_occurrence CONTENT_TAG s a \<and>
         take b s = take a s @ CONTENT_TAG"
proof -
  from re_search_Some [OF assms] obtain n where a: "a \<le> length s" and b: "b = a + n"
    and m: "match_here START_RE (drop a s) = Some n"
    and before: "\<forall>j<a. match_here START_RE (drop j s) = None"
    by blast
  from m have pre: "prefix CONTENT_TAG (drop a s)" and n: "n = length CONTENT_TAG"
    by (auto simp: START_RE_def split: if_splits)
  have "\<forall>j<a. \<not> occurs_at CONTENT_TAG s j"
  proof (intro allI impI)
    fix j assume "j < a"
    then have "match_here START_RE (drop j s) = None" using before by simp
    then show "\<not> occurs_at CONTENT_TAG s j"
      by (auto simp: START_RE_def occurs_at_def split: if_splits)
  qed
  then have fo: "first_occurrence CONTENT_TAG s a"
    using a pre by (simp add: first_occurrence_def occurs_at_def)
  from pre obtain r where r: "drop a s = CONTENT_TAG @ r" by (auto simp: prefix_def)
  have "take b s = take a s @ take n (drop a s)"
    using b by (simp add: take_add)
  then have "take b s = take a s @ CONTENT_TAG" using r n by simp
  then show ?thesis using b n fo by simp
qed

lemma str_replace_single:
  "str_replace [a] new s = concat (map (\<lambda>c. if c = a then new else [c]) s)"
  by (induction s) auto

lemma concat_map_concat:
  "concat (map g (concat (map f t))) = concat (map (\<lambda>c. concat (map g (f c))) t)"
  by (induction t) auto

lemma escape_title_concat: "escape_title t = concat (map esc_char t)"
proof -
  have amp: "lit ''&'' = [38]" and lt: "lit ''<'' = [60]" and gt: "lit ''>'' = [62]"
    by (simp_all add: lit_def)
  have "escape_title t =
      concat (map (\<lambda>c. concat (map (\<lambda>c. if c = 62 then lit ''&gt;'' else [c])
         (concat (map (\<lambda>c. if c = 60 then lit ''&lt;'' else [c])
            (if c = 38 then lit ''&amp;'' else [c]))))) t)"
    unfolding escape_title_def amp lt gt str_replace_single
    by (simp only: concat_map_concat)
  also have "\<dots> = concat (map esc_char t)"
    by (rule arg_cong [where f = concat], rule map_cong [OF refl]) (simp add: esc_char_def lit_def)
  finally show ?thesis .
qed

lemma esc_char_no_angle: "60 \<notin> set (esc_char c) \<and> 62 \<notin> set (esc_char c)"
  by (simp add: esc_char_def lit_def)

text \<open>
  Claim C4. The title is escaped by three replacements applied in the order ampersand,
  less-than, greater-than; the result is the title with each of these characters replaced
  by its entity, in the original order, every other character (apostrophes and quotes
  included) unchanged, so that no literal angle bracket of the title reaches the fragment.
\<close>

theorem title_escaped:
  "generate_video_section_html v =
     SECTION_OPEN @ concat (map esc_char (title v)) @ SECTION_DATE @ format_date (upload_date v) @
     SECTION_LINK @ url v @ SECTION_CLOSE \<and>
   escape_title (title v) =
     str_replace (lit ''>'') (lit ''&gt;'')
       (str_replace (lit ''<'') (lit ''&lt;'') (str_replace (lit ''&'') (lit ''&amp;'') (title v))) \<and>
   escape_title (title v) = concat (map esc_char (title v)) \<and>
   esc_char 38 = lit ''&amp;'' \<and> esc_char 60 = lit ''&lt;'' \<and> esc_char 62 = lit ''&gt;'' \<and>
   (\<forall>c. c \<noteq> 38 \<and> c \<noteq> 60 \<and> c \<noteq> 62 \<longrightarrow> esc_char c = [c]) \<and>
   60 \<notin> set (escape_title (title v)) \<and> 62 \<notin> set (escape_title (title v))"
proof (intro conjI)
  show "generate_video_section_html v =
     SECTION_OPEN @ concat (map esc_char (title v)) @ SECTION_DATE @ format_date (upload_date v) @
     SECTION_LINK @ url v @ SECTION_CLOSE"
    by (simp add: generate_video_section_html_def escape_title_concat)
  show "escape_title (title v) =
     str_replace (lit ''>'') (lit ''&gt;'')
       (str_replace (lit ''<'') (lit ''&lt;'') (str_replace (lit ''&'') (lit ''&amp;'') (title v)))"
    by (simp only: escape_title_def)
  show "escape_title (title v) = concat (map esc_char (title v))"
    by (rule escape_title_concat)
  show "esc_char 38 = lit ''&amp;''" "esc_char 60 = lit ''&lt;''" "esc_char 62 = lit ''&gt;''"
    by (simp_all add: esc_char_def)
  show "\<forall>c. c \<noteq> 38 \<and> c \<noteq> 60 \<and> c \<noteq> 62 \<longrightarrow> esc_char c = [c]"
    by (simp add: esc_char_def)
  show "60 \<notin> set (escape_title (title v))" "62 \<notin> set (escape_title (title v))"
    using esc_char_no_angle by (auto simp: escape_title_concat)
qed

theorem title_escaped_witness:
  \<open>escape_title (lit ''Q&A: <b>it's "x"</b>'') = lit ''Q&amp;A: &lt;b&gt;it's "x"&lt;/b&gt;''\<close>
  using title_escaped [of \<open>\<lparr>title = lit ''Q&A: <b>it's "x"</b>'', video_id = [], url = [],
      upload_date = [], description = []\<rparr>\<close>]
  by (simp add: esc_char_def lit_def)

lemma primary_ok_split:
  assumes "primary_ok existing"
  shows "\<exists>a b e0 e1. re_search START_RE existing = Some (a, b) \<and>
           re_search END_RE existing = Some (e0, e1) \<and>
           read_existing_html existing = (take b existing, drop e0 existing)"
proof -
  from assms obtain x y where "re_search START_RE existing = Some x"
      "re_search END_RE existing = Some y"
    by (auto simp: primary_ok_def)
  then show ?thesis
    by (cases x; cases y) (simp add: read_existing_html_def)
qed

lemma WRAPPER_OPEN_tag: "WRAPPER_OPEN = replicate 8 32 @ CONTENT_TAG @ [10]"
  by (simp add: WRAPPER_OPEN_def CONTENT_TAG_def lit_def eval_nat_numeral)

text \<open>
  Claim C10. When the splitter finds both boundaries, the preserved header ends with the
  opening tag of the content container, and the assembler's wrapper adds a second opening
  tag eight spaces after it: the regenerated block is nested inside the preserved tag.
\<close>

theorem nested_content_tag:
  assumes "primary_ok existing"
  shows "\<exists>h0 rest.
           fst (read_existing_html existing) = h0 @ CONTENT_TAG \<and>
           complete_html existing videos =
             h0 @ CONTENT_TAG @ replicate 8 32 @ CONTENT_TAG @ rest \<and>
           occurs_at CONTENT_TAG (complete_html existing videos) (length h0) \<and>
           occurs_at CONTENT_TAG (complete_html existing videos)
             (length h0 + length CONTENT_TAG + 8)"
proof -
  obtain a b e0 e1 where st: "re_search START_RE existing = Some (a, b)"
    and sp: "read_existing_html existing = (take b existing, drop e0 existing)"
    using primary_ok_split [OF assms] by blast
  let ?h0 = "take a existing"
  let ?rest = "[10] @ str_join (lit ''\<newline>'') (video_sections videos) @ WRAPPER_CLOSE @
               drop e0 existing"
  have hd: "take b existing = ?h0 @ CONTENT_TAG" and a: "first_occurrence CONTENT_TAG existing a"
    using start_match_shape [OF st] by blast+
  have la: "length ?h0 = a" using a by (simp add: first_occurrence_def occurs_at_def)
  have c: "complete_html existing videos =
           ?h0 @ CONTENT_TAG @ replicate 8 32 @ CONTENT_TAG @ ?rest"
    by (simp add: complete_html_def sp hd content_html_def WRAPPER_OPEN_tag)
  have o1: "occurs_at CONTENT_TAG (?h0 @ CONTENT_TAG @ replicate 8 32 @ CONTENT_TAG @ ?rest)
              (length ?h0)"
    by (simp add: occurs_at_def)
  have "drop (length ?h0 + length CONTENT_TAG + 8)
          (?h0 @ CONTENT_TAG @ replicate 8 32 @ CONTENT_TAG @ ?rest) = CONTENT_TAG @ ?rest"
    by simp
  then have o2: "occurs_at CONTENT_TAG (?h0 @ CONTENT_TAG @ replicate 8 32 @ CONTENT_TAG @ ?rest)
              (length ?h0 + length CONTENT_TAG + 8)"
    unfolding occurs_at_def by simp
  have "fst (read_existing_html existing) = ?h0 @ CONTENT_TAG" using sp hd by simp
  then show ?thesis using c o1 o2 by metis
qed

lemmas date_eval = format_date_def strptime_def format_regex_match_def Y_GROUP_def m_GROUP_def
  d_GROUP_def is_decimal_def decimal_value_def DECIMAL_ZEROS_def in_range_def py_int_def
  days_in_month_def is_leap_def strftime_def MONTH_NAMES_def pad2_def show_nat.simps
  digit_char_def DATE_UNKNOWN_def is_space_def lit_def

lemmas section_eval = generate_video_section_html_def escape_title_def SECTION_OPEN_def
  SECTION_DATE_def SECTION_LINK_def SECTION_CLOSE_def video_data_def

lemmas assemble_eval = complete_html_def content_html_def video_sections_def videos_sorted_def
  sorted_reverse_def sort_key_of_def WRAPPER_OPEN_def WRAPPER_CLOSE_def

lemma fd1: "format_date (lit ''20240101'') = lit ''January 01, 2024''"
  by (simp add: date_eval)

lemma fd2: "format_date (lit ''202411 1'') = lit ''November 01, 2024''"
  by (simp add: date_eval)

lemma example_section:
  "generate_video_section_html (video_data (lit ''A & B'') (lit ''abc123'') (lit ''20240101'') descr)
     = EXAMPLE_FRAGMENT"
proof -
  have "format_date (upload_date (video_data (lit ''A & B'') (lit ''abc123'') (lit ''20240101'') descr))
        = lit ''January 01, 2024''"
    using fd1 by (simp add: video_data_def)
  moreover have "escape_title (title (video_data (lit ''A & B'') (lit ''abc123'') (lit ''20240101'') descr))
        = lit ''A &amp; B''"
    by (simp add: video_data_def escape_title_def lit_def)
  moreover have "url (video_data (lit ''A & B'') (lit ''abc123'') (lit ''20240101'') descr)
        = lit ''https://youtu.be/abc123''"
    by (simp add: video_data_def lit_def)
  ultimately show ?thesis
    unfolding generate_video_section_html_def Let_def
    by (simp add: SECTION_OPEN_def SECTION_DATE_def SECTION_LINK_def SECTION_CLOSE_def
        EXAMPLE_FRAGMENT_def lit_def)
qed

text \<open>
  Claim C7. End to end: for the single record with title \<open>A & B\<close>, id \<open>abc123\<close> and upload
  date \<open>20240101\<close>, exactly one fragment is rendered; its title reads \<open>A &amp; B\<close>, its date
  \<open>January 01, 2024\<close>, its link \<open>https://youtu.be/abc123\<close>, and the assembled document is
  the header, the wrapper around that one fragment, and the footer. This holds for every
  existing document, in particular for those whose boundaries the splitter recognises.
\<close>

theorem end_to_end:
  "video_sections [video_data (lit ''A & B'') (lit ''abc123'') (lit ''20240101'') descr]
     = [EXAMPLE_FRAGMENT] \<and>
   url (video_data (lit ''A & B'') (lit ''abc123'') (lit ''20240101'') descr)
     = lit ''https://youtu.be/abc123'' \<and>
   complete_html existing [video_data (lit ''A & B'') (lit ''abc123'') (lit ''20240101'') descr]
     = fst (read_existing_html existing) @ WRAPPER_OPEN @ EXAMPLE_FRAGMENT @ WRAPPER_CLOSE @
       snd (read_existing_html existing)"
proof -
  have vs: "video_sections [video_data (lit ''A & B'') (lit ''abc123'') (lit ''20240101'') descr]
     = [EXAMPLE_FRAGMENT]"
    by (simp add: video_sections_def videos_sorted_def sorted_reverse_def example_section)
  then show ?thesis
    by (simp add: complete_html_def content_html_def video_data_def lit_def split: prod.splits)
qed

theorem end_to_end_witness:
  \<open>complete_html (lit ''<body><div class="content">old</div></div></body>'')
     [video_data (lit ''A & B'') (lit ''abc123'') (lit ''20240101'') []]
   = lit ''<body><div class="content">'' @ WRAPPER_OPEN @ EXAMPLE_FRAGMENT @ WRAPPER_CLOSE @
     lit ''</div></div></body>''\<close>
  using end_to_end [of "[]" \<open>lit ''<body><div class="content">old</div></div></body>''\<close>]
  by (simp add: splitter_eval)

theorem nested_content_tag_witness:
  \<open>primary_ok (lit ''<body><div class="content">old</div></div></body>'') \<and>
   complete_html (lit ''<body><div class="content">old</div></div></body>'') [] =
     lit ''<body><div class="content">        <div class="content">\<newline>\<newline>        </div></div></div></body>'' \<and>
   (\<exists>h0 rest.
      fst (read_existing_html (lit ''<body><div class="content">old</div></div></body>'')) =
        h0 @ CONTENT_TAG \<and>
      complete_html (lit ''<body><div class="content">old</div></div></body>'') [] =
        h0 @ CONTENT_TAG @ replicate 8 32 @ CONTENT_TAG @ rest \<and>
      occurs_at CONTENT_TAG
        (complete_html (lit ''<body><div class="content">old</div></div></body>'') []) (length h0) \<and>
      occurs_at CONTENT_TAG
        (complete_html (lit ''<body><div class="content">old</div></div></body>'') [])
        (length h0 + length CONTENT_TAG + 8))\<close>
proof -
  have p: \<open>primary_ok (lit ''<body><div class="content">old</div></div></body>'')\<close>
    by (simp add: splitter_eval)
  have c: \<open>complete_html (lit ''<body><div class="content">old</div></div></body>'') [] =
     lit ''<body><div class="content">        <div class="content">\<newline>\<newline>        </div></div></div></body>''\<close>
    by (simp add: assemble_eval splitter_eval)
  show ?thesis using p c nested_content_tag [OF p, of "[]"] by blast
qed

lemma zeros_least:
  "\<forall>c \<in> set d. 48 \<le> c \<Longrightarrow> replicate (length d) (48::nat) \<le> d"
  by (induction d) auto

lemma zeros_lit: "lit ''00000000'' = replicate 8 48"
  by (simp add: lit_def eval_nat_numeral)

lemma videos_sorted_mset: "mset (videos_sorted videos) = mset videos"
  by (simp add: videos_sorted_def sorted_reverse_def)

lemma videos_sorted_desc: "sorted (rev (map sort_key_of (videos_sorted videos)))"
  by (simp add: videos_sorted_def sorted_reverse_def rev_map)

lemma three_dates:
  assumes "upload_date a = lit ''20240301''" "upload_date b = lit ''20230101''" "upload_date c = []"
  shows "videos_sorted [a, b, c] = [a, b, c]" "videos_sorted [a, c, b] = [a, b, c]"
    "videos_sorted [b, a, c] = [a, b, c]" "videos_sorted [b, c, a] = [a, b, c]"
    "videos_sorted [c, a, b] = [a, b, c]" "videos_sorted [c, b, a] = [a, b, c]"
  using assms by (simp_all add: videos_sorted_def sorted_reverse_def sort_key_of_def lit_def)

lemma videos_sorted_order:
  "video_sections videos = map generate_video_section_html (videos_sorted videos) \<and>
   mset (videos_sorted videos) = mset videos \<and>
   (\<forall>i j. i \<le> j \<and> j < length (videos_sorted videos) \<longrightarrow>
      sort_key_of (videos_sorted videos ! j) \<le> sort_key_of (videos_sorted videos ! i)) \<and>
   (\<forall>v. sort_key_of v = (if upload_date v = [] then lit ''00000000'' else upload_date v)) \<and>
   (\<forall>d. length d = 8 \<and> (\<forall>c \<in> set d. in_range 48 57 c) \<and> d \<noteq> lit ''00000000''
      \<longrightarrow> lit ''00000000'' < d) \<and>
   (upload_date a = lit ''20240301'' \<and> upload_date b = lit ''20230101'' \<and> upload_date c = []
      \<longrightarrow> videos_sorted [a, b, c] = [a, b, c] \<and> videos_sorted [a, c, b] = [a, b, c] \<and>
          videos_sorted [b, a, c] = [a, b, c] \<and> videos_sorted [b, c, a] = [a, b, c] \<and>
          videos_sorted [c, a, b] = [a, b, c] \<and> videos_sorted [c, b, a] = [a, b, c])"
proof (intro conjI)
  show "video_sections videos = map generate_video_section_html (videos_sorted videos)"
    by (simp add: video_sections_def)
  show "mset (videos_sorted videos) = mset videos" by (rule videos_sorted_mset)
  show "\<forall>i j. i \<le> j \<and> j < length (videos_sorted videos) \<longrightarrow>
      sort_key_of (videos_sorted videos ! j) \<le> sort_key_of (videos_sorted videos ! i)"
  proof (intro allI impI)
    fix i j assume ij: "i \<le> j \<and> j < length (videos_sorted videos)"
    let ?ks = "map sort_key_of (videos_sorted videos)"
    let ?n = "length (videos_sorted videos)"
    have s: "sorted (rev ?ks)" by (rule videos_sorted_desc)
    have le: "rev ?ks ! (?n - Suc j) \<le> rev ?ks ! (?n - Suc i)"
      using ij by (intro sorted_nth_mono [OF s]) auto
    have nth: "rev ?ks ! (?n - Suc k) = sort_key_of (videos_sorted videos ! k)" if "k < ?n" for k
    proof -
      have "rev ?ks ! (?n - Suc k) = ?ks ! (length ?ks - Suc (?n - Suc k))"
        using that by (intro rev_nth) simp
      also have "length ?ks - Suc (?n - Suc k) = k" using that by simp
      finally show ?thesis using that by simp
    qed
    have "i < ?n" "j < ?n" using ij by simp_all
    then show "sort_key_of (videos_sorted videos ! j) \<le> sort_key_of (videos_sorted videos ! i)"
      using le nth by metis
  qed
  show "\<forall>v. sort_key_of v = (if upload_date v = [] then lit ''00000000'' else upload_date v)"
    by (simp add: sort_key_of_def)
  show "\<forall>d. length d = 8 \<and> (\<forall>c \<in> set d. in_range 48 57 c) \<and> d \<noteq> lit ''00000000''
      \<longrightarrow> lit ''00000000'' < d"
  proof (intro allI impI)
    fix d :: pystr
    assume h: "length d = 8 \<and> (\<forall>c \<in> set d. in_range 48 57 c) \<and> d \<noteq> lit ''00000000''"
    then have "\<forall>c \<in> set d. 48 \<le> c" by (simp add: in_range_def)
    then have "replicate (length d) 48 \<le> d" by (rule zeros_least)
    then have "lit ''00000000'' \<le> d" using h by (simp add: zeros_lit)
    moreover have "lit ''00000000'' \<noteq> d" using h by blast
    ultimately show "lit ''00000000'' < d" by (simp only: less_le simp_thms)
  qed
  show "upload_date a = lit ''20240301'' \<and> upload_date b = lit ''20230101'' \<and> upload_date c = []
      \<longrightarrow> videos_sorted [a, b, c] = [a, b, c] \<and> videos_sorted [a, c, b] = [a, b, c] \<and>
          videos_sorted [b, a, c] = [a, b, c] \<and> videos_sorted [b, c, a] = [a, b, c] \<and>
          videos_sorted [c, a, b] = [a, b, c] \<and> videos_sorted [c, b, a] = [a, b, c]"
    using three_dates by blast
qed



lemma find_Some_member: "find P xs = Some x \<Longrightarrow> x \<in> set xs \<and> P x"
  by (induction xs) (auto split: if_splits)

lemma decimal_iff: "is_decimal c \<longleftrightarrow> (\<exists>z \<in> set DECIMAL_ZEROS. z \<le> c \<and> c < z + 10)"
proof
  assume "is_decimal c"
  then obtain z where "find (\<lambda>z. z \<le> c \<and> c < z + 10) DECIMAL_ZEROS = Some z"
    by (auto simp: is_decimal_def decimal_value_def split: option.splits)
  then show "\<exists>z \<in> set DECIMAL_ZEROS. z \<le> c \<and> c < z + 10"
    using find_Some_member by fastforce
next
  assume "\<exists>z \<in> set DECIMAL_ZEROS. z \<le> c \<and> c < z + 10"
  then have "find (\<lambda>z. z \<le> c \<and> c < z + 10) DECIMAL_ZEROS \<noteq> None"
    by (simp only: find_None_iff) blast
  then show "is_decimal c"
    by (auto simp: is_decimal_def decimal_value_def split: option.splits)
qed

lemma space_not_decimal_aux:
  assumes "z \<in> set DECIMAL_ZEROS" "z \<le> c" "c < z + 10"
  shows "\<not> is_space c"
proof -
  have "z = 48 \<or> (1632 \<le> z \<and> z \<le> 4240) \<or> (6112 \<le> z \<and> z \<le> 7248) \<or> 42528 \<le> z"
    using assms(1) unfolding DECIMAL_ZEROS_def by auto
  then have "(48 \<le> c \<and> c \<le> 57) \<or> (1632 \<le> c \<and> c \<le> 4249) \<or> (6112 \<le> c \<and> c \<le> 7257) \<or> 42528 \<le> c"
    using assms(2,3) by arith
  then show ?thesis unfolding is_space_def by arith
qed

lemma space_not_decimal: "is_space c \<Longrightarrow> decimal_value c = None"
  using space_not_decimal_aux decimal_iff [of c] unfolding is_decimal_def by blast

lemma decimal_not_space: "is_decimal c \<Longrightarrow> \<not> is_space c"
  using space_not_decimal by (auto simp: is_decimal_def)

lemma ascii_decimal: "in_range 48 57 c \<Longrightarrow> decimal_value c = Some (c - 48)"
  by (simp add: decimal_value_def DECIMAL_ZEROS_def in_range_def)

lemma regex_d2:
  "match_group d_GROUP [g, h] (\<lambda>d r3. Some (Y, m, d, r3)) =
     (if day_ok g h then Some (Y, m, [g, h], [])
      else if in_range 49 57 g then Some (Y, m, [g], [h]) else None)"
  by (auto simp: d_GROUP_def day_ok_def in_range_def)

lemma regex_d3:
  "unconverted (match_group d_GROUP [f, g, h] (\<lambda>d r3. Some (Y, m, d, r3)))"
  by (simp add: d_GROUP_def unconverted_def)

lemma regex_d2_unconverted:
  "\<not> day_ok g h \<Longrightarrow> unconverted (match_group d_GROUP [g, h] (\<lambda>d r3. Some (Y, m, d, r3)))"
  by (simp add: regex_d2 unconverted_def)

lemma regex_m_ok:
  assumes "month_ok e f" "day_ok g h"
  shows "match_group m_GROUP [e, f, g, h]
           (\<lambda>m r2. match_group d_GROUP r2 (\<lambda>d r3. Some (Y, m, d, r3))) =
         Some (Y, [e, f], [g, h], [])"
  using assms by (auto simp: m_GROUP_def month_ok_def regex_d2 in_range_def)

lemma regex_m_bad:
  assumes "\<not> (month_ok e f \<and> day_ok g h)"
  shows "unconverted (match_group m_GROUP [e, f, g, h]
           (\<lambda>m r2. match_group d_GROUP r2 (\<lambda>d r3. Some (Y, m, d, r3))))"
proof -
  have d3: "unconverted (match_group d_GROUP [f, g, h] (\<lambda>d r3. Some (Y, [e], d, r3)))"
    by (rule regex_d3)
  show ?thesis
  proof (cases "month_ok e f")
    case True
    then have nd: "\<not> day_ok g h" using assms by simp
    have d2: "unconverted (match_group d_GROUP [g, h] (\<lambda>d r3. Some (Y, [e, f], d, r3)))"
      using nd by (rule regex_d2_unconverted)
    show ?thesis using True d2 d3
      by (auto simp: m_GROUP_def month_ok_def in_range_def unconverted_def split: option.splits)
  next
    case False
    then show ?thesis using d3
      by (auto simp: m_GROUP_def month_ok_def in_range_def unconverted_def split: option.splits)
  qed
qed

lemma regex_Y:
  "match_group Y_GROUP (a # b # c # d # r) k =
     (if is_decimal a \<and> is_decimal b \<and> is_decimal c \<and> is_decimal d then k [a, b, c, d] r
      else None)"
  by (cases "k [a, b, c, d] r") (simp_all add: Y_GROUP_def)

lemma format_regex_ok:
  assumes "is_decimal a" "is_decimal b" "is_decimal c" "is_decimal d" "month_ok e f" "day_ok g h"
  shows "format_regex_match [a, b, c, d, e, f, g, h] = Some ([a, b, c, d], [e, f], [g, h], [])"
  using assms by (simp add: format_regex_match_def regex_Y regex_m_ok)

lemma format_regex_bad:
  assumes "\<not> (is_decimal a \<and> is_decimal b \<and> is_decimal c \<and> is_decimal d \<and> month_ok e f \<and>
              day_ok g h)"
  shows "unconverted (format_regex_match [a, b, c, d, e, f, g, h])"
proof (cases "is_decimal a \<and> is_decimal b \<and> is_decimal c \<and> is_decimal d")
  case True
  then have "\<not> (month_ok e f \<and> day_ok g h)" using assms by blast
  then show ?thesis using True by (simp add: format_regex_match_def regex_Y regex_m_bad)
next
  case False
  then show ?thesis by (auto simp: format_regex_match_def regex_Y unconverted_def)
qed

lemma unconverted_strptime: "unconverted (format_regex_match s) \<Longrightarrow> strptime s = None"
  by (auto simp: unconverted_def strptime_def split: option.splits)

lemma py_int_year:
  assumes "is_decimal a" "is_decimal b" "is_decimal c" "is_decimal d"
  shows "py_int [a, b, c, d] = Some (year_of (a # b # c # d # r))"
proof -
  have ns: "\<not> is_space a" "\<not> is_space d"
    using assms decimal_not_space by simp_all
  have v: "decimal_value a = Some (dv a)" "decimal_value b = Some (dv b)"
      "decimal_value c = Some (dv c)" "decimal_value d = Some (dv d)"
    using assms by (auto simp: is_decimal_def dv_def)
  show ?thesis using ns v by (simp add: py_int_def year_of_def)
qed

lemma py_int_month:
  assumes "month_ok e f"
  shows "py_int [e, f] = Some (10 * dv e + dv f) \<and> 1 \<le> 10 * dv e + dv f \<and> 10 * dv e + dv f \<le> 12"
proof -
  have r: "in_range 48 57 e" "in_range 48 57 f"
    using assms by (auto simp: month_ok_def in_range_def)
  then have v: "decimal_value e = Some (e - 48)" "decimal_value f = Some (f - 48)"
    using ascii_decimal by simp_all
  have ns: "\<not> is_space e" "\<not> is_space f"
    using r by (auto simp: in_range_def is_space_def)
  show ?thesis using assms v ns
    by (auto simp: py_int_def dv_def month_ok_def in_range_def)
qed

lemma py_int_day:
  assumes "day_ok g h"
  shows "py_int [g, h] = Some (10 * dv g + dv h) \<and> 1 \<le> 10 * dv g + dv h"
proof -
  have hd: "is_decimal h"
    using assms ascii_decimal [of h] by (auto simp: day_ok_def in_range_def is_decimal_def)
  then have nsh: "\<not> is_space h" by (rule decimal_not_space)
  obtain k where k: "decimal_value h = Some k" using hd by (auto simp: is_decimal_def)
  show ?thesis
  proof (cases "g = 32")
    case True
    then have "in_range 49 57 h" using assms by (auto simp: day_ok_def in_range_def)
    then have "decimal_value h = Some (h - 48)" "49 \<le> h" using ascii_decimal by (simp_all add: in_range_def)
    moreover have "is_space 32" "decimal_value 32 = None"
      by (simp_all add: is_space_def decimal_value_def DECIMAL_ZEROS_def)
    ultimately show ?thesis using True nsh
      by (simp add: py_int_def dv_def)
  next
    case False
    then have rg: "in_range 48 51 g" using assms by (auto simp: day_ok_def in_range_def)
    then have vg: "decimal_value g = Some (g - 48)" using ascii_decimal [of g] by (simp add: in_range_def)
    have nsg: "\<not> is_space g" using rg by (auto simp: in_range_def is_space_def)
    have pos: "1 \<le> 10 * dv g + dv h"
      using assms False ascii_decimal [of h] by (auto simp: day_ok_def in_range_def dv_def vg)
    show ?thesis using vg k nsg nsh pos by (simp add: py_int_def dv_def)
  qed
qed

lemma year_le_9999:
  assumes "is_decimal a" "is_decimal b" "is_decimal c" "is_decimal d"
  shows "year_of (a # b # c # d # r) \<le> 9999"
proof -
  have "dv x \<le> 9" if "is_decimal x" for x
  proof -
    from that obtain z where "find (\<lambda>z. z \<le> x \<and> x < z + 10) DECIMAL_ZEROS = Some z"
      by (auto simp: is_decimal_def decimal_value_def split: option.splits)
    moreover from this have "z \<le> x \<and> x < z + 10" using find_Some_member by fastforce
    ultimately show ?thesis by (auto simp: dv_def decimal_value_def)
  qed
  then have "dv a \<le> 9" "dv b \<le> 9" "dv c \<le> 9" "dv d \<le> 9" using assms by simp_all
  then show ?thesis by (simp add: year_of_def)
qed

lemma strptime8:
  "strptime [a, b, c, d, e, f, g, h] =
     (if strptime_accepts [a, b, c, d, e, f, g, h]
      then Some (year_of [a, b, c, d, e, f, g, h], month_of [a, b, c, d, e, f, g, h],
                 day_of [a, b, c, d, e, f, g, h])
      else None)"
proof (cases "is_decimal a \<and> is_decimal b \<and> is_decimal c \<and> is_decimal d \<and> month_ok e f \<and>
              day_ok g h")
  case False
  then have "strptime [a, b, c, d, e, f, g, h] = None"
    using format_regex_bad unconverted_strptime by blast
  moreover have "\<not> strptime_accepts [a, b, c, d, e, f, g, h]"
    using False by (auto simp: strptime_accepts_def)
  ultimately show ?thesis by simp
next
  case True
  let ?s = "[a, b, c, d, e, f, g, h]"
  have fm: "format_regex_match ?s = Some ([a, b, c, d], [e, f], [g, h], [])"
    using True format_regex_ok by blast
  have y: "py_int [a, b, c, d] = Some (year_of ?s)" using True py_int_year by blast
  have m: "py_int [e, f] = Some (month_of ?s)" "1 \<le> month_of ?s" "month_of ?s \<le> 12"
    using True py_int_month [of e f] by (simp_all add: month_of_def)
  have dd: "py_int [g, h] = Some (day_of ?s)" "1 \<le> day_of ?s"
    using True py_int_day [of g h] by (simp_all add: day_of_def)
  have y9: "year_of ?s \<le> 9999" using True year_le_9999 by blast
  have acc: "strptime_accepts ?s \<longleftrightarrow>
             1 \<le> year_of ?s \<and> day_of ?s \<le> days_in_month (year_of ?s) (month_of ?s)"
    using True by (simp add: strptime_accepts_def)
  show ?thesis
    unfolding strptime_def fm using y m dd y9 acc by simp
qed

lemma length8_cases:
  assumes "length s = 8"
  obtains a b c d e f g h where "s = [a, b, c, d, e, f, g, h]"
proof -
  from assms obtain a b c d e f g h where "s = [a, b, c, d, e, f, g, h]"
    by (auto simp: length_Suc_conv eval_nat_numeral)
  then show ?thesis using that by blast
qed

lemma format_date_char:
  "format_date s =
     (if strptime_accepts s then strftime (year_of s, month_of s, day_of s) else DATE_UNKNOWN)"
proof (cases "length s = 8")
  case False
  then show ?thesis by (simp add: format_date_def strptime_accepts_def)
next
  case True
  then obtain a b c d e f g h where s: "s = [a, b, c, d, e, f, g, h]"
    by (rule length8_cases)
  show ?thesis unfolding s format_date_def strptime8 by simp
qed

lemma month_name_not_unknown:
  assumes "1 \<le> m" "m \<le> 12"
  shows "MONTH_NAMES ! (m - 1) @ r \<noteq> DATE_UNKNOWN"
proof -
  have "m = 1 \<or> m = 2 \<or> m = 3 \<or> m = 4 \<or> m = 5 \<or> m = 6 \<or> m = 7 \<or> m = 8 \<or> m = 9 \<or>
        m = 10 \<or> m = 11 \<or> m = 12"
    using assms by arith
  then show ?thesis
    by (elim disjE) (simp_all add: MONTH_NAMES_def DATE_UNKNOWN_def lit_def)
qed

lemma accepts_month_range:
  assumes "strptime_accepts s"
  shows "1 \<le> month_of s \<and> month_of s \<le> 12"
  using assms py_int_month [of "s ! 4" "s ! 5"] by (simp add: strptime_accepts_def month_of_def)

lemma accepted_not_unknown:
  assumes "strptime_accepts s"
  shows "format_date s \<noteq> DATE_UNKNOWN"
  using assms accepts_month_range [OF assms] month_name_not_unknown
  by (simp add: format_date_char strftime_def)

lemma ascii_dv: "in_range 48 57 c \<Longrightarrow> dv c = c - 48"
  using ascii_decimal by (simp add: dv_def)

lemma ascii_is_decimal: "in_range 48 57 c \<Longrightarrow> is_decimal c"
  using ascii_decimal by (simp add: is_decimal_def)

lemma ascii_digitE:
  assumes "in_range 48 57 c"
  obtains k where "c = 48 + k" "k < 10" "dv c = k" "is_decimal c"
proof -
  have "c = 48 + (c - 48)" "c - 48 < 10" using assms unfolding in_range_def by arith+
  moreover have "dv c = c - 48" using assms by (rule ascii_dv)
  moreover have "is_decimal c" using assms by (rule ascii_is_decimal)
  ultimately show ?thesis using that by blast
qed

lemma month_ok_offsets:
  assumes "e' < 10" "f' < 10" "1 \<le> 10 * e' + f'" "10 * e' + f' \<le> 12"
  shows "month_ok (48 + e') (48 + f')"
proof -
  have "(e' = 1 \<and> f' \<le> 2) \<or> (e' = 0 \<and> 1 \<le> f' \<and> f' \<le> 9)" using assms by arith
  then show ?thesis by (auto simp: month_ok_def in_range_def)
qed

lemma day_ok_offsets:
  assumes "g' < 10" "h' < 10" "1 \<le> 10 * g' + h'" "10 * g' + h' \<le> 31" "is_decimal (48 + h')"
  shows "day_ok (48 + g') (48 + h')"
proof -
  have "(g' = 3 \<and> h' \<le> 1) \<or> g' = 1 \<or> g' = 2 \<or> (g' = 0 \<and> 1 \<le> h' \<and> h' \<le> 9)"
    using assms(1-4) by arith
  then show ?thesis using assms(5) by (auto simp: day_ok_def in_range_def)
qed

lemma valid_accepts:
  assumes "valid_yyyymmdd s"
  shows "strptime_accepts s"
proof -
  from assms have len: "length s = 8" by (simp add: valid_yyyymmdd_def)
  then obtain a b c d e f g h where s: "s = [a, b, c, d, e, f, g, h]"
    by (rule length8_cases)
  have r: "in_range 48 57 a" "in_range 48 57 b" "in_range 48 57 c" "in_range 48 57 d"
      "in_range 48 57 e" "in_range 48 57 f" "in_range 48 57 g" "in_range 48 57 h"
    using assms unfolding s valid_yyyymmdd_def by simp_all
  obtain e' where e: "e = 48 + e'" "e' < 10" "dv e = e'" using r(5) by (rule ascii_digitE)
  obtain f' where f: "f = 48 + f'" "f' < 10" "dv f = f'" using r(6) by (rule ascii_digitE)
  obtain g' where g: "g = 48 + g'" "g' < 10" "dv g = g'" using r(7) by (rule ascii_digitE)
  obtain h' where h: "h = 48 + h'" "h' < 10" "dv h = h'" using r(8) by (rule ascii_digitE)
  have dim: "days_in_month (year_of s) (month_of s) \<le> 31" by (simp add: days_in_month_def)
  have mo: "1 \<le> 10 * e' + f'" "10 * e' + f' \<le> 12"
    using assms e(3) f(3) unfolding s valid_yyyymmdd_def month_of_def by simp_all
  have "1 \<le> day_of s" "day_of s \<le> 31"
    using assms dim unfolding valid_yyyymmdd_def by simp_all
  then have da: "1 \<le> 10 * g' + h'" "10 * g' + h' \<le> 31"
    using g(3) h(3) unfolding s day_of_def by simp_all
  have m: "month_ok e f" unfolding e(1) f(1) using e(2) f(2) mo by (rule month_ok_offsets)
  have "is_decimal (48 + h')" using ascii_is_decimal [OF r(8)] h(1) by simp
  then have dd: "day_ok g h" unfolding g(1) h(1) using g(2) h(2) da by (intro day_ok_offsets)
  have dec: "is_decimal a" "is_decimal b" "is_decimal c" "is_decimal d"
    using r(1-4) ascii_is_decimal by simp_all
  have rest: "1 \<le> year_of s" "day_of s \<le> days_in_month (year_of s) (month_of s)"
    using assms unfolding valid_yyyymmdd_def by simp_all
  show ?thesis
    unfolding strptime_accepts_def using len dec m dd rest by (simp add: s)
qed

lemma show_nat_digit: "x < 10 \<Longrightarrow> show_nat x = [48 + x]"
  by (simp add: show_nat.simps digit_char_def)

lemma show_nat_step: "x < 10 \<Longrightarrow> 0 < n \<Longrightarrow> show_nat (10 * n + x) = show_nat n @ [48 + x]"
  by (subst show_nat.simps) (simp add: digit_char_def)

lemma pad2_digits:
  assumes "g' < 10" "h' < 10"
  shows "pad2 (10 * g' + h') = [48 + g', 48 + h']"
proof (cases "g' = 0")
  case True
  then show ?thesis using assms by (simp add: pad2_def show_nat_digit)
next
  case False
  then show ?thesis using assms by (simp add: pad2_def show_nat_step show_nat_digit)
qed

lemma show_year:
  assumes "a' < 10" "b' < 10" "c' < 10" "d' < 10"
    and "1000 \<le> 10 * (10 * (10 * a' + b') + c') + d'"
  shows "show_nat (10 * (10 * (10 * a' + b') + c') + d') = [48 + a', 48 + b', 48 + c', 48 + d']"
proof -
  have e: "10 * (10 * (10 * a' + b') + c') + d' = 1000 * a' + 100 * b' + 10 * c' + d'"
    by simp
  have a: "0 < a'" using assms(2-5) unfolding e by linarith
  have 1: "show_nat a' = [48 + a']" using assms(1) by (rule show_nat_digit)
  have 2: "show_nat (10 * a' + b') = show_nat a' @ [48 + b']"
    using assms(2) a by (rule show_nat_step)
  have "0 < 10 * a' + b'" using a by simp
  then have 3: "show_nat (10 * (10 * a' + b') + c') = show_nat (10 * a' + b') @ [48 + c']"
    using assms(3) by (intro show_nat_step)
  have "0 < 10 * (10 * a' + b') + c'" using a by simp
  then have 4: "show_nat (10 * (10 * (10 * a' + b') + c') + d') =
                show_nat (10 * (10 * a' + b') + c') @ [48 + d']"
    using assms(4) by (intro show_nat_step)
  show ?thesis unfolding 4 3 2 1 by simp
qed

lemma valid_rendered:
  assumes "valid_yyyymmdd s" "1000 \<le> year_of s"
  shows "format_date s = month_dd_yyyy s"
proof -
  from assms have len: "length s = 8" by (simp add: valid_yyyymmdd_def)
  then obtain a b c d e f g h where s: "s = [a, b, c, d, e, f, g, h]"
    by (rule length8_cases)
  have r: "in_range 48 57 a" "in_range 48 57 b" "in_range 48 57 c" "in_range 48 57 d"
      "in_range 48 57 g" "in_range 48 57 h"
    using assms unfolding s valid_yyyymmdd_def by simp_all
  obtain a' where a: "a = 48 + a'" "a' < 10" "dv a = a'" using r(1) by (rule ascii_digitE)
  obtain b' where b: "b = 48 + b'" "b' < 10" "dv b = b'" using r(2) by (rule ascii_digitE)
  obtain c' where c: "c = 48 + c'" "c' < 10" "dv c = c'" using r(3) by (rule ascii_digitE)
  obtain d' where d: "d = 48 + d'" "d' < 10" "dv d = d'" using r(4) by (rule ascii_digitE)
  obtain g' where g: "g = 48 + g'" "g' < 10" "dv g = g'" using r(5) by (rule ascii_digitE)
  obtain h' where h: "h = 48 + h'" "h' < 10" "dv h = h'" using r(6) by (rule ascii_digitE)
  have y: "year_of s = 10 * (10 * (10 * a' + b') + c') + d'"
    unfolding s year_of_def using a(3) b(3) c(3) d(3) by simp
  have "show_nat (year_of s) = [48 + a', 48 + b', 48 + c', 48 + d']"
    unfolding y using a(2) b(2) c(2) d(2) assms(2) [unfolded y] by (rule show_year)
  then have sy: "show_nat (year_of s) = [a, b, c, d]" by (simp only: a(1) b(1) c(1) d(1))
  have "day_of s = 10 * g' + h'"
    unfolding s day_of_def using g(3) h(3) by simp
  then have "pad2 (day_of s) = [48 + g', 48 + h']"
    using pad2_digits [OF g(2) h(2)] by simp
  then have pd: "pad2 (day_of s) = [g, h]" by (simp only: g(1) h(1))
  have "format_date s = strftime (year_of s, month_of s, day_of s)"
    using valid_accepts [OF assms(1)] by (simp add: format_date_char)
  then show ?thesis using sy pd by (simp add: strftime_def month_dd_yyyy_def s)
qed

text \<open>
  Claim C6, as amended. \<open>format_date\<close> is total. It returns \<open>Date unknown\<close> exactly for
  the inputs that are empty, not eight characters long, or rejected by the library parser
  for \<open>%Y%m%d\<close>. That parser accepts the eight-character strings made of four decimal
  digits (year at least 1), a month \<open>01\<close> to \<open>12\<close>, and a day written \<open>01\<close> to \<open>31\<close> or as a
  space followed by a digit \<open>1\<close> to \<open>9\<close>, the day existing in that month. Every string of
  eight ASCII digits that denotes a valid calendar date is accepted, and for years from
  1000 on the result is the month name, the two day digits, a comma and the four year
  digits.
\<close>

theorem format_date_total:
  "(s = [] \<or> length s \<noteq> 8 \<longrightarrow> format_date s = DATE_UNKNOWN) \<and>
   format_date s =
     (if strptime_accepts s then strftime (year_of s, month_of s, day_of s) else DATE_UNKNOWN) \<and>
   (format_date s = DATE_UNKNOWN \<longleftrightarrow> \<not> strptime_accepts s) \<and>
   (valid_yyyymmdd s \<longrightarrow> strptime_accepts s) \<and>
   (valid_yyyymmdd s \<and> 1000 \<le> year_of s \<longrightarrow> format_date s = month_dd_yyyy s)"
proof (intro conjI)
  show "s = [] \<or> length s \<noteq> 8 \<longrightarrow> format_date s = DATE_UNKNOWN"
    by (auto simp: format_date_def)
  show "format_date s =
     (if strptime_accepts s then strftime (year_of s, month_of s, day_of s) else DATE_UNKNOWN)"
    by (rule format_date_char)
  show "format_date s = DATE_UNKNOWN \<longleftrightarrow> \<not> strptime_accepts s"
    using accepted_not_unknown [of s] by (auto simp: format_date_char)
  show "valid_yyyymmdd s \<longrightarrow> strptime_accepts s"
    using valid_accepts by blast
  show "valid_yyyymmdd s \<and> 1000 \<le> year_of s \<longrightarrow> format_date s = month_dd_yyyy s"
    using valid_rendered by blast
qed

lemmas date_spec_eval = valid_yyyymmdd_def strptime_accepts_def year_of_def month_of_def day_of_def
  dv_def month_ok_def day_ok_def month_dd_yyyy_def

theorem format_date_total_witness:
  "valid_yyyymmdd (lit ''20240229'') \<and> 1000 \<le> year_of (lit ''20240229'') \<and>
   format_date (lit ''20240229'') = lit ''February 29, 2024'' \<and>
   length (lit ''2024-02-29'') \<noteq> 8 \<and> format_date (lit ''2024-02-29'') = DATE_UNKNOWN \<and>
   \<not> strptime_accepts (lit ''20230229'') \<and> format_date (lit ''20230229'') = DATE_UNKNOWN"
proof -
  have v: "valid_yyyymmdd (lit ''20240229'') \<and> 1000 \<le> year_of (lit ''20240229'')"
    by (simp add: date_spec_eval date_eval)
  have m: "month_dd_yyyy (lit ''20240229'') = lit ''February 29, 2024''"
    by (simp add: date_spec_eval date_eval)
  have l: "length (lit ''2024-02-29'') \<noteq> 8" by (simp add: lit_def)
  have n: "\<not> strptime_accepts (lit ''20230229'')"
    by (simp add: date_spec_eval date_eval)
  have a: "format_date (lit ''20240229'') = month_dd_yyyy (lit ''20240229'')"
    using v format_date_total [of "lit ''20240229''"] by blast
  have b: "format_date (lit ''2024-02-29'') = DATE_UNKNOWN"
    using l format_date_total [of "lit ''2024-02-29''"] by blast
  have c: "format_date (lit ''20230229'') = DATE_UNKNOWN"
    using n format_date_total [of "lit ''20230229''"] by blast
  show ?thesis using v l n a b c unfolding m by blast
qed

theorem format_date_lenient_counterexample:
  "length (lit ''202411 1'') = 8 \<and> \<not> valid_yyyymmdd (lit ''202411 1'') \<and>
   format_date (lit ''202411 1'') = lit ''November 01, 2024'' \<and>
   format_date (lit ''202411 1'') \<noteq> DATE_UNKNOWN"
  by (simp add: date_spec_eval date_eval)


lemma then_do_Inr: "then_do r f = Inr w' \<longleftrightarrow> (\<exists>w1. r = Inr w1 \<and> f w1 = Inr w')"
  by (cases r) (simp_all add: then_do_def)

lemma then_do_ok: "r = Inr w1 \<Longrightarrow> then_do r f = f w1"
  by (simp add: then_do_def)


lemma print_keeps: "files (outcome_world (print env line w)) = files w"
  by (simp add: print_def outcome_world_def)

lemma print_Inr: "print env line w = Inr w' \<Longrightarrow> w' = w\<lparr>stdout := stdout w @ [line]\<rparr>"
  by (auto simp: print_def split: if_splits)


lemma print_all_Inr:
  "print_all env lines w = Inr w' \<Longrightarrow> w' = w\<lparr>stdout := stdout w @ lines\<rparr>"
proof (induction lines arbitrary: w)
  case Nil
  then show ?case by simp
next
  case (Cons line lines)
  then obtain w1 where 1: "print env line w = Inr w1" and 2: "print_all env lines w1 = Inr w'"
    by (auto simp: then_do_Inr)
  have "w1 = w\<lparr>stdout := stdout w @ [line]\<rparr>" using 1 by (rule print_Inr)
  moreover have "w' = w1\<lparr>stdout := stdout w1 @ lines\<rparr>" using 2 by (rule Cons.IH)
  ultimately show ?case by simp
qed


lemma write_text_Inr:
  "write_text env p text w = Inr w' \<Longrightarrow>
     \<exists>raw. utf8_encode (to_linesep env text) = Some raw \<and> w' = w\<lparr>files := (files w)(p \<mapsto> raw)\<rparr>"
  by (auto simp: write_text_def split: option.splits)

lemma splitter_warning_keeps: "files (outcome_world (splitter_warning env existing w)) = files w"
proof (cases "primary_ok existing \<or> fallback_ok existing")
  case True
  then show ?thesis by (simp add: splitter_warning_def outcome_world_def)
next
  case False
  then show ?thesis by (simp add: splitter_warning_def print_keeps)
qed

lemma splitter_warning_Inr: "splitter_warning env existing w = Inr w' \<Longrightarrow> files w' = files w"
  using splitter_warning_keeps [of env existing w] by (simp add: outcome_world_def)





lemma generate_preview_Inr:
  assumes "generate_html_file env videos output_path True (Some side) w = Inr w'"
  shows "\<exists>existing raw. read_text output_path w = Inr existing \<and>
           utf8_encode (to_linesep env (complete_html existing videos)) = Some raw \<and>
           files w' = (files w)(side \<mapsto> raw)"
proof (cases "read_text output_path w")
  case (Inl e)
  then show ?thesis using assms by (simp add: generate_html_file_def)
next
  case (Inr existing)
  from assms Inr obtain w1 w2 w3 where
    1: "splitter_warning env existing w = Inr w1" and
    2: "write_text env side (complete_html existing videos) w1 = Inr w2" and
    3: "print env (lit ''\<newline>Complete HTML written to: '' @ side) w2 = Inr w3" and
    4: "print_all env
              [lit ''\<newline>Would generate HTML file with '' @
                 show_nat (length (videos_sorted videos)) @ lit '' video sections'',
               lit ''\<newline>'' @ RULE_60,
               lit ''PREVIEW OF GENERATED CONTENT:'',
               RULE_60,
               content_html videos,
               RULE_60] w3 = Inr w'"
    by (auto simp: generate_html_file_def then_do_Inr)
  have f1: "files w1 = files w" using 1 by (rule splitter_warning_Inr)
  obtain raw where raw: "utf8_encode (to_linesep env (complete_html existing videos)) = Some raw"
    and f2: "w2 = w1\<lparr>files := (files w1)(side \<mapsto> raw)\<rparr>"
    using write_text_Inr [OF 2] by blast
  have f3: "files w3 = files w2" using print_Inr [OF 3] by simp
  have f4: "files w' = files w3" using print_all_Inr [OF 4] by simp
  have "files w' = (files w)(side \<mapsto> raw)" using f1 f2 f3 f4 by simp
  then show ?thesis using Inr raw by blast
qed


lemma encodable_append [simp]: "encodable (a @ b) \<longleftrightarrow> encodable a \<and> encodable b"
  by (auto simp: encodable_def)

lemma encodable_ascii: "\<forall>c \<in> set text. c < 128 \<Longrightarrow> encodable text"
  by (simp add: encodable_def utf8_char_def)


















lemma example_split:
  \<open>read_existing_html EXAMPLE_DOCUMENT =
     (lit ''<body><div class="content">'', lit ''</div></div></body>'')\<close>
  by (simp add: EXAMPLE_DOCUMENT_def splitter_eval)





lemma generate_preview_stdout:
  assumes "generate_html_file env videos output_path True (Some side) w = Inr w'"
  shows "content_html videos \<in> set (stdout w')"
proof (cases "read_text output_path w")
  case (Inl e)
  then show ?thesis using assms by (simp add: generate_html_file_def)
next
  case (Inr existing)
  from assms Inr obtain w1 w2 w3 where
    1: "splitter_warning env existing w = Inr w1" and
    2: "write_text env side (complete_html existing videos) w1 = Inr w2" and
    3: "print env (lit ''\<newline>Complete HTML written to: '' @ side) w2 = Inr w3" and
    4: "print_all env
              [lit ''\<newline>Would generate HTML file with '' @
                 show_nat (length (videos_sorted videos)) @ lit '' video sections'',
               lit ''\<newline>'' @ RULE_60,
               lit ''PREVIEW OF GENERATED CONTENT:'',
               RULE_60,
               content_html videos,
               RULE_60] w3 = Inr w'"
    by (auto simp: generate_html_file_def then_do_Inr)
  show ?thesis using print_all_Inr [OF 4] by simp
qed

lemma complete_html_sorted:
  "complete_html existing videos =
     fst (read_existing_html existing) @ WRAPPER_OPEN @
     str_join (lit ''\<newline>'') (map generate_video_section_html (videos_sorted videos)) @
     WRAPPER_CLOSE @ snd (read_existing_html existing)"
  by (simp add: complete_html_def content_html_def video_sections_def split: prod.splits)

lemma newline_lit: "lit ''\<newline>'' = [10]"
  by (simp add: lit_def)

text \<open>
  Claim C5. \<open>generate_html_file\<close> renders the fragments newest first: the content block,
  the assembled document and the side file it writes hold the fragments of
  \<open>videos_sorted\<close>, joined by newlines inside the wrapper. \<open>videos_sorted\<close> is a
  rearrangement of the input whose sort keys descend lexicographically, an empty upload
  date being keyed as \<open>00000000\<close>, which lies strictly below every other string of eight
  digits. For three records dated \<open>20240301\<close>, \<open>20230101\<close> and empty, every input order
  yields the assembled order \<open>20240301\<close>, \<open>20230101\<close>, empty.
\<close>

theorem sections_newest_first:
  "content_html videos =
     WRAPPER_OPEN @
     str_join (lit ''\<newline>'') (map generate_video_section_html (videos_sorted videos)) @
     WRAPPER_CLOSE \<and>
   complete_html existing videos =
     fst (read_existing_html existing) @ WRAPPER_OPEN @
     str_join (lit ''\<newline>'') (map generate_video_section_html (videos_sorted videos)) @
     WRAPPER_CLOSE @ snd (read_existing_html existing) \<and>
   (\<forall>w'. generate_html_file env videos output_path True (Some side) w = Inr w' \<longrightarrow>
      content_html videos \<in> set (stdout w') \<and>
      (\<exists>original raw. read_text output_path w = Inr original \<and>
         utf8_encode (to_linesep env (complete_html original videos)) = Some raw \<and>
         files w' side = Some raw)) \<and>
   video_sections videos = map generate_video_section_html (videos_sorted videos) \<and>
   mset (videos_sorted videos) = mset videos \<and>
   (\<forall>i j. i \<le> j \<and> j < length (videos_sorted videos) \<longrightarrow>
      sort_key_of (videos_sorted videos ! j) \<le> sort_key_of (videos_sorted videos ! i)) \<and>
   (\<forall>v. sort_key_of v = (if upload_date v = [] then lit ''00000000'' else upload_date v)) \<and>
   (\<forall>d. length d = 8 \<and> (\<forall>c \<in> set d. in_range 48 57 c) \<and> d \<noteq> lit ''00000000''
      \<longrightarrow> lit ''00000000'' < d) \<and>
   (upload_date a = lit ''20240301'' \<and> upload_date b = lit ''20230101'' \<and> upload_date c = []
      \<longrightarrow> videos_sorted [a, b, c] = [a, b, c] \<and> videos_sorted [a, c, b] = [a, b, c] \<and>
          videos_sorted [b, a, c] = [a, b, c] \<and> videos_sorted [b, c, a] = [a, b, c] \<and>
          videos_sorted [c, a, b] = [a, b, c] \<and> videos_sorted [c, b, a] = [a, b, c]) \<and>
   (upload_date a = lit ''20240301'' \<and> upload_date b = lit ''20230101'' \<and> upload_date c = []
      \<longrightarrow> (\<forall>vs \<in> set [[a, b, c], [a, c, b], [b, a, c], [b, c, a], [c, a, b], [c, b, a]].
            complete_html existing vs =
              fst (read_existing_html existing) @ WRAPPER_OPEN @
              generate_video_section_html a @ [10] @ generate_video_section_html b @ [10] @
              generate_video_section_html c @ WRAPPER_CLOSE @ snd (read_existing_html existing)))"
proof -
  have c1: "content_html videos =
     WRAPPER_OPEN @
     str_join (lit ''\<newline>'') (map generate_video_section_html (videos_sorted videos)) @
     WRAPPER_CLOSE"
    by (simp add: content_html_def video_sections_def)
  have c3: "\<forall>w'. generate_html_file env videos output_path True (Some side) w = Inr w' \<longrightarrow>
      content_html videos \<in> set (stdout w') \<and>
      (\<exists>original raw. read_text output_path w = Inr original \<and>
         utf8_encode (to_linesep env (complete_html original videos)) = Some raw \<and>
         files w' side = Some raw)"
  proof (intro allI impI)
    fix w' assume g: "generate_html_file env videos output_path True (Some side) w = Inr w'"
    obtain original raw where "read_text output_path w = Inr original"
      "utf8_encode (to_linesep env (complete_html original videos)) = Some raw"
      "files w' = (files w)(side \<mapsto> raw)"
      using generate_preview_Inr [OF g] by blast
    then have "\<exists>original raw. read_text output_path w = Inr original \<and>
         utf8_encode (to_linesep env (complete_html original videos)) = Some raw \<and>
         files w' side = Some raw"
      by auto
    then show "content_html videos \<in> set (stdout w') \<and>
      (\<exists>original raw. read_text output_path w = Inr original \<and>
         utf8_encode (to_linesep env (complete_html original videos)) = Some raw \<and>
         files w' side = Some raw)"
      using generate_preview_stdout [OF g] by blast
  qed
  have c9: "upload_date a = lit ''20240301'' \<and> upload_date b = lit ''20230101'' \<and> upload_date c = []
      \<longrightarrow> (\<forall>vs \<in> set [[a, b, c], [a, c, b], [b, a, c], [b, c, a], [c, a, b], [c, b, a]].
            complete_html existing vs =
              fst (read_existing_html existing) @ WRAPPER_OPEN @
              generate_video_section_html a @ [10] @ generate_video_section_html b @ [10] @
              generate_video_section_html c @ WRAPPER_CLOSE @ snd (read_existing_html existing))"
  proof (intro impI ballI)
    fix vs
    assume d: "upload_date a = lit ''20240301'' \<and> upload_date b = lit ''20230101'' \<and>
               upload_date c = []"
      and vs: "vs \<in> set [[a, b, c], [a, c, b], [b, a, c], [b, c, a], [c, a, b], [c, b, a]]"
    have "videos_sorted vs = [a, b, c]" using three_dates [of a b c] d vs by auto
    then show "complete_html existing vs =
              fst (read_existing_html existing) @ WRAPPER_OPEN @
              generate_video_section_html a @ [10] @ generate_video_section_html b @ [10] @
              generate_video_section_html c @ WRAPPER_CLOSE @ snd (read_existing_html existing)"
      by (simp add: complete_html_sorted newline_lit)
  qed
  show ?thesis
    using c1 complete_html_sorted [of existing videos] c3 c9
      videos_sorted_order [of videos a b c]
    by blast
qed

theorem sections_newest_first_witness:
  \<open>complete_html EXAMPLE_DOCUMENT
     [video_data (lit ''old'') (lit ''id1'') (lit ''20230101'') [],
      video_data (lit ''undated'') (lit ''id2'') [] [],
      video_data (lit ''new'') (lit ''id3'') (lit ''20240301'') []]
   = lit ''<body><div class="content">'' @ WRAPPER_OPEN @
     generate_video_section_html (video_data (lit ''new'') (lit ''id3'') (lit ''20240301'') []) @
     [10] @
     generate_video_section_html (video_data (lit ''old'') (lit ''id1'') (lit ''20230101'') []) @
     [10] @
     generate_video_section_html (video_data (lit ''undated'') (lit ''id2'') [] []) @
     WRAPPER_CLOSE @ lit ''</div></div></body>''\<close>
proof -
  let ?new = "video_data (lit ''new'') (lit ''id3'') (lit ''20240301'') []"
  let ?old = "video_data (lit ''old'') (lit ''id1'') (lit ''20230101'') []"
  let ?und = "video_data (lit ''undated'') (lit ''id2'') [] []"
  have d: "upload_date ?new = lit ''20240301'' \<and> upload_date ?old = lit ''20230101'' \<and>
           upload_date ?und = []"
    by (simp add: video_data_def)
  have m: "[?old, ?und, ?new] \<in> set [[?new, ?old, ?und], [?new, ?und, ?old], [?old, ?new, ?und],
             [?old, ?und, ?new], [?und, ?new, ?old], [?und, ?old, ?new]]"
    by simp
  have "complete_html EXAMPLE_DOCUMENT [?old, ?und, ?new] =
          fst (read_existing_html EXAMPLE_DOCUMENT) @ WRAPPER_OPEN @
          generate_video_section_html ?new @ [10] @ generate_video_section_html ?old @ [10] @
          generate_video_section_html ?und @ WRAPPER_CLOSE @
          snd (read_existing_html EXAMPLE_DOCUMENT)"
    using sections_newest_first [of "[?old, ?und, ?new]" EXAMPLE_DOCUMENT _ _ _ _ ?new ?old ?und]
      d m by blast
  then show ?thesis by (simp add: example_split)
qed

lemma closing_here_steps:
  "closing_here r \<longleftrightarrow> prefix DIV_CLOSE r \<and> div_body_next (drop (length DIV_CLOSE) r)"
  by (simp add: closing_here_def div_body_next_def body_next_def)

lemma closing_literals:
  "closing_literal DIV_CLOSE" "closing_literal BODY_CLOSE" "closing_literal CONTENT_TAG"
  by (simp_all add: closing_literal_def DIV_CLOSE_Cons BODY_CLOSE_Cons CONTENT_TAG_Cons)

lemma prefix_no_straddle:
  assumes "closing_literal L" "u \<noteq> []" "separated u r"
  shows "prefix L (u @ r) \<longleftrightarrow> prefix L u"
proof
  assume "prefix L u"
  then show "prefix L (u @ r)" by (rule prefix_prefix)
next
  assume "prefix L (u @ r)"
  then have "prefix L u \<or> (\<exists>us. L = u @ us \<and> prefix us r)"
    by (simp only: prefix_append)
  then consider "prefix L u" | us where "L = u @ us" "prefix us r" "us \<noteq> []"
  proof (elim disjE exE conjE)
    assume "prefix L u" "prefix L u \<Longrightarrow> thesis"
    then show thesis by blast
  next
    fix us assume h: "L = u @ us" "prefix us r"
      and c1: "prefix L u \<Longrightarrow> thesis"
      and c2: "\<And>us. L = u @ us \<Longrightarrow> prefix us r \<Longrightarrow> us \<noteq> [] \<Longrightarrow> thesis"
    show thesis
    proof (cases "us = []")
      case True
      then have "prefix L u" using h(1) by simp
      then show ?thesis by (rule c1)
    next
      case False
      then show ?thesis using h c2 by blast
    qed
  qed
  then show "prefix L u"
  proof cases
    case 1
    then show ?thesis .
  next
    case 2
    then obtain x us' where us: "us = x # us'" by (cases us) auto
    obtain y u' where u: "u = y # u'" using assms(2) by (cases u) auto
    have xin: "x \<in> set (tl L)" using 2(1) us u by simp
    have lin: "last u \<in> set (butlast L)"
      using 2(1) us assms(2) by (simp add: butlast_append)
    from 2(2) us have r: "r \<noteq> []" "hd r = x" by (auto simp: prefix_def)
    have "x = 60 \<or> last u = 62" using assms(3) r assms(2) by (auto simp: separated_def)
    then show ?thesis using xin lin assms(1) by (auto simp: closing_literal_def)
  qed
qed

lemma separated_suffix:
  assumes "separated u r" "u = w @ v" "v \<noteq> []"
  shows "separated v r"
  using assms by (auto simp: separated_def)

lemma separated_drop:
  assumes "separated u r" "k < length u"
  shows "separated (drop k u) r"
proof -
  have "u = take k u @ drop k u" by simp
  moreover have "drop k u \<noteq> []" using assms(2) by simp
  ultimately show ?thesis using assms(1) separated_suffix by blast
qed

lemma dropWhile_drop: "\<exists>k. dropWhile P u = drop k u \<and> (dropWhile P u \<noteq> [] \<longrightarrow> k < length u)"
proof -
  have "dropWhile P u = drop (length (takeWhile P u)) u" by (simp add: dropWhile_eq_drop)
  moreover have "dropWhile P u \<noteq> [] \<longrightarrow> length (takeWhile P u) < length u"
    by (metis calculation drop_all leI)
  ultimately show ?thesis by blast
qed

lemma separated_dropWhile:
  assumes "separated u r" "dropWhile P u \<noteq> []"
  shows "separated (dropWhile P u) r"
proof -
  obtain k where "dropWhile P u = drop k u" "k < length u"
    using dropWhile_drop [of P u] assms(2) by blast
  then show ?thesis using separated_drop [OF assms(1)] by simp
qed

lemma dropWhile_append_cases:
  "dropWhile P (u @ r) = (if dropWhile P u = [] then dropWhile P r else dropWhile P u @ r)"
proof (cases "dropWhile P u = []")
  case True
  then have "\<forall>x \<in> set u. P x" by (simp add: dropWhile_eq_Nil_conv)
  then show ?thesis using True by (simp add: dropWhile_append2)
next
  case False
  then obtain x where "x \<in> set u" "\<not> P x" by (auto simp: dropWhile_eq_Nil_conv)
  then have "dropWhile P (u @ r) = dropWhile P u @ r" by (rule dropWhile_append1)
  then show ?thesis by (simp only: False if_False)
qed

lemma prefix_drop_append:
  assumes "prefix L v"
  shows "drop (length L) (v @ r) = drop (length L) v @ r"
proof -
  have "length L \<le> length v" using assms by (rule prefix_length_le)
  then show ?thesis by simp
qed

lemma body_next_Nil: "\<not> body_next []"
  by (simp add: body_next_def BODY_CLOSE_Cons)

lemma div_body_next_Nil: "\<not> div_body_next []"
  by (simp add: div_body_next_def DIV_CLOSE_Cons)

lemma body_next_append:
  assumes "separated u r" "\<not> body_next r"
  shows "body_next (u @ r) \<longleftrightarrow> body_next u"
proof (cases "dropWhile is_space u = []")
  case True
  have "dropWhile is_space (u @ r) = dropWhile is_space r"
    by (simp only: dropWhile_append_cases True refl if_True)
  then have "body_next (u @ r) = body_next r" by (simp only: body_next_def)
  then have "\<not> body_next (u @ r)" using assms(2) by simp
  moreover have "\<not> body_next u" unfolding body_next_def True by (simp add: BODY_CLOSE_Cons)
  ultimately show ?thesis by simp
next
  case False
  then have "separated (dropWhile is_space u) r" using assms(1) by (intro separated_dropWhile)
  then have "prefix BODY_CLOSE (dropWhile is_space u @ r) \<longleftrightarrow> prefix BODY_CLOSE (dropWhile is_space u)"
    using False closing_literals(2) by (intro prefix_no_straddle)
  moreover have "dropWhile is_space (u @ r) = dropWhile is_space u @ r"
    by (simp only: dropWhile_append_cases False if_False)
  ultimately show ?thesis by (simp only: body_next_def)
qed

lemma body_next_drop_append:
  assumes "separated v r" "\<not> body_next r"
  shows "body_next (drop k v @ r) \<longleftrightarrow> body_next (drop k v)"
proof (cases "k < length v")
  case True
  then show ?thesis using assms separated_drop body_next_append by blast
next
  case False
  then show ?thesis using assms(2) by (simp add: body_next_Nil)
qed

lemma div_body_next_append:
  assumes "separated u r" "\<not> body_next r" "\<not> div_body_next r"
  shows "div_body_next (u @ r) \<longleftrightarrow> div_body_next u"
proof (cases "dropWhile is_space u = []")
  case True
  have "dropWhile is_space (u @ r) = dropWhile is_space r"
    by (simp only: dropWhile_append_cases True refl if_True)
  then have "div_body_next (u @ r) = div_body_next r" by (simp only: div_body_next_def)
  then have "\<not> div_body_next (u @ r)" using assms(3) by simp
  moreover have "\<not> div_body_next u" unfolding div_body_next_def True by (simp add: DIV_CLOSE_Cons)
  ultimately show ?thesis by simp
next
  case False
  let ?v = "dropWhile is_space u"
  have dw: "dropWhile is_space (u @ r) = ?v @ r"
    by (simp only: dropWhile_append_cases False if_False)
  have sv: "separated ?v r" using assms(1) False by (intro separated_dropWhile)
  have p: "prefix DIV_CLOSE (?v @ r) \<longleftrightarrow> prefix DIV_CLOSE ?v"
    using False closing_literals(1) sv by (intro prefix_no_straddle)
  show ?thesis
  proof (cases "prefix DIV_CLOSE ?v")
    case pre: True
    have "body_next (drop (length DIV_CLOSE) ?v @ r) \<longleftrightarrow> body_next (drop (length DIV_CLOSE) ?v)"
      using sv assms(2) by (rule body_next_drop_append)
    moreover have "drop (length DIV_CLOSE) (?v @ r) = drop (length DIV_CLOSE) ?v @ r"
      using pre by (rule prefix_drop_append)
    ultimately show ?thesis
      using pre p by (simp only: div_body_next_def dw)
  next
    case npre: False
    then show ?thesis using p by (simp only: div_body_next_def dw simp_thms)
  qed
qed

lemma div_body_next_drop_append:
  assumes "separated v r" "\<not> body_next r" "\<not> div_body_next r"
  shows "div_body_next (drop k v @ r) \<longleftrightarrow> div_body_next (drop k v)"
proof (cases "k < length v")
  case True
  then show ?thesis using assms separated_drop div_body_next_append by blast
next
  case False
  then show ?thesis using assms(3) by (simp add: div_body_next_Nil)
qed

lemma closing_here_append:
  assumes "separated u r" "u \<noteq> []" "\<not> body_next r" "\<not> div_body_next r"
  shows "closing_here (u @ r) \<longleftrightarrow> closing_here u"
proof -
  have p: "prefix DIV_CLOSE (u @ r) \<longleftrightarrow> prefix DIV_CLOSE u"
    using closing_literals(1) assms(2,1) by (rule prefix_no_straddle)
  show ?thesis
  proof (cases "prefix DIV_CLOSE u")
    case True
    have "div_body_next (drop (length DIV_CLOSE) u @ r) \<longleftrightarrow> div_body_next (drop (length DIV_CLOSE) u)"
      using assms(1,3,4) by (rule div_body_next_drop_append)
    moreover have "drop (length DIV_CLOSE) (u @ r) = drop (length DIV_CLOSE) u @ r"
      using True by (rule prefix_drop_append)
    ultimately show ?thesis using True p by (simp only: closing_here_steps)
  next
    case False
    then show ?thesis using p by (simp only: closing_here_steps simp_thms)
  qed
qed

lemma first_occurrence_exists:
  "(\<exists>k. occurs_at sub s k) \<longleftrightarrow> (\<exists>i. first_occurrence sub s i)"
  unfolding first_occurrence_def by (rule exists_least_iff)

lemma first_closing_exists: "(\<exists>k. closing_at s k) \<longleftrightarrow> (\<exists>p. first_closing s p)"
  unfolding first_closing_def by (rule exists_least_iff)

lemma footer_shape:
  assumes "p \<le> length s"
  shows "drop (ws_before s p) s = trailing_ws (take p s) @ drop p s"
proof -
  obtain A W where s: "s = A @ W @ drop p s" and lenA: "length A = ws_before s p"
    and W: "W = trailing_ws (take p s)"
    using split_ws_before [OF assms] by blast
  have "drop (length A) s = W @ drop p s" using s by (metis append_eq_conv_conj)
  then show ?thesis using lenA W by simp
qed

lemma splitter_located:
  assumes "first_occurrence CONTENT_TAG s i" "first_closing s p"
  shows "read_existing_html s = (take i s @ CONTENT_TAG, trailing_ws (take p s) @ drop p s)"
proof -
  have p: "p \<le> length s" using assms(2) by (simp add: first_closing_def closing_at_def)
  obtain n where e: "re_search END_RE s = Some (ws_before s p, n)"
    using end_match_first [OF assms(2)] by blast
  have st: "re_search START_RE s = Some (i, i + length CONTENT_TAG)"
    using assms(1) by (rule start_match_first)
  have "take (i + length CONTENT_TAG) s = take i s @ CONTENT_TAG"
    using start_match_shape [OF st] by blast
  then show ?thesis
    using splitter_general [OF assms] footer_shape [OF p] by simp
qed

lemma closing_here_final: "closing_here (DIV_CLOSE @ DIV_CLOSE @ BODY_CLOSE @ r)"
  by (simp add: closing_here_def DIV_CLOSE_Cons BODY_CLOSE_Cons)

lemma final_not_next:
  "\<not> body_next (DIV_CLOSE @ r)" "\<not> div_body_next (DIV_CLOSE @ DIV_CLOSE @ BODY_CLOSE @ r)"
  by (simp_all add: body_next_def div_body_next_def DIV_CLOSE_Cons BODY_CLOSE_Cons)

lemma tag_not_next:
  "\<not> body_next (CONTENT_TAG @ r)" "\<not> div_body_next (CONTENT_TAG @ r)"
  by (simp_all add: body_next_def div_body_next_def DIV_CLOSE_Cons BODY_CLOSE_Cons
      CONTENT_TAG_Cons)

lemma separated_lt: "r \<noteq> [] \<Longrightarrow> hd r = 60 \<Longrightarrow> separated u r"
  by (simp add: separated_def)

lemma separated_gt: "u \<noteq> [] \<Longrightarrow> last u = 62 \<Longrightarrow> separated u r"
  by (simp add: separated_def)

lemma tag_suffix_no_div:
  assumes "k < length CONTENT_TAG"
  shows "\<not> prefix DIV_CLOSE (drop k CONTENT_TAG @ r)"
proof
  let ?u = "drop k CONTENT_TAG"
  assume a: "prefix DIV_CLOSE (?u @ r)"
  have ne: "?u \<noteq> []" using assms by simp
  have "last ?u = last CONTENT_TAG" using assms by (simp add: last_drop)
  then have "last ?u = 62" by (simp add: CONTENT_TAG_Cons)
  then have "separated ?u r" using ne by (rule separated_gt [rotated])
  then have "prefix DIV_CLOSE ?u"
    using a closing_literals(1) ne prefix_no_straddle by blast
  then obtain t where "?u = DIV_CLOSE @ t" by (auto simp: prefix_def)
  then have "47 \<in> set ?u" by (simp add: DIV_CLOSE_Cons)
  then have "47 \<in> set CONTENT_TAG" by (meson in_set_dropD)
  then show False by (simp add: CONTENT_TAG_Cons)
qed

lemma trailing_ws_after_nonspace:
  assumes "\<not> is_space c"
  shows "trailing_ws (A @ c # t) = trailing_ws t"
proof -
  have "takeWhile is_space (rev t @ c # rev A) = takeWhile is_space (rev t)"
  proof (cases "\<forall>x \<in> set (rev t). is_space x")
    case True
    then have a: "takeWhile is_space (rev t) = rev t" by (simp add: takeWhile_eq_all_conv)
    have b: "takeWhile is_space (rev t @ c # rev A) = rev t @ takeWhile is_space (c # rev A)"
      using True by (intro takeWhile_append2) simp
    have c: "takeWhile is_space (c # rev A) = []" using assms by simp
    show ?thesis unfolding b c by (simp add: a)
  next
    case False
    then obtain x where "x \<in> set (rev t)" "\<not> is_space x" by blast
    then show ?thesis by (rule takeWhile_append1)
  qed
  then show ?thesis by (simp add: trailing_ws_def)
qed

lemma trailing_ws_Nil_iff: "trailing_ws t = [] \<longleftrightarrow> t = [] \<or> \<not> is_space (last t)"
proof (cases t rule: rev_cases)
  case Nil
  then show ?thesis by (simp add: trailing_ws_def)
next
  case (snoc ys y)
  then show ?thesis by (simp add: trailing_ws_def)
qed

lemma delimited_document:
  assumes noH: "\<forall>k. \<not> occurs_at CONTENT_TAG H k"
    and cH: "\<forall>k. \<not> closing_at H k" and cO: "\<forall>k. \<not> closing_at OLD k"
  shows "read_existing_html (H @ CONTENT_TAG @ OLD @ DIV_CLOSE @ DIV_CLOSE @ BODY_CLOSE) =
           (H @ CONTENT_TAG, trailing_ws OLD @ DIV_CLOSE @ DIV_CLOSE @ BODY_CLOSE)"
proof -
  let ?Fin = "DIV_CLOSE @ DIV_CLOSE @ BODY_CLOSE"
  let ?s = "H @ CONTENT_TAG @ OLD @ ?Fin"
  let ?p = "length H + length CONTENT_TAG + length OLD"
  have tag60: "CONTENT_TAG \<noteq> []" "hd CONTENT_TAG = 60" by (simp_all add: CONTENT_TAG_Cons)
  have fin60: "?Fin \<noteq> []" "hd ?Fin = 60" by (simp_all add: DIV_CLOSE_Cons)
  have occ: "first_occurrence CONTENT_TAG ?s (length H)"
  proof -
    have "occurs_at CONTENT_TAG ?s (length H)" by (simp add: occurs_at_def)
    moreover have "\<not> occurs_at CONTENT_TAG ?s j" if "j < length H" for j
    proof -
      let ?u = "drop j H"
      have ne: "?u \<noteq> []" using that by simp
      have sep: "separated ?u (CONTENT_TAG @ OLD @ ?Fin)"
        using tag60 by (intro separated_lt) simp_all
      have "prefix CONTENT_TAG (?u @ CONTENT_TAG @ OLD @ ?Fin) \<longleftrightarrow> prefix CONTENT_TAG ?u"
        using closing_literals(3) ne sep by (rule prefix_no_straddle)
      moreover have "\<not> prefix CONTENT_TAG ?u"
        using noH that by (simp add: occurs_at_def)
      moreover have "drop j ?s = ?u @ CONTENT_TAG @ OLD @ ?Fin" using that by simp
      ultimately show ?thesis by (simp add: occurs_at_def)
    qed
    ultimately show ?thesis by (simp add: first_occurrence_def)
  qed
  have clo: "first_closing ?s ?p"
  proof -
    have "drop ?p ?s = ?Fin" by simp
    then have "closing_here (drop ?p ?s)"
      using closing_here_final [of "[]"] by simp
    then have at: "closing_at ?s ?p" by (simp add: closing_at_def)
    have "\<not> closing_here (drop j ?s)" if j: "j < ?p" for j
    proof -
      consider "j < length H" | "length H \<le> j" "j < length H + length CONTENT_TAG"
        | "length H + length CONTENT_TAG \<le> j"
        by linarith
      then show ?thesis
      proof cases
        case 1
        let ?u = "drop j H"
        let ?r = "CONTENT_TAG @ OLD @ ?Fin"
        have ne: "?u \<noteq> []" using 1 by simp
        have sep: "separated ?u ?r" using tag60 by (intro separated_lt) simp_all
        have "closing_here (?u @ ?r) \<longleftrightarrow> closing_here ?u"
          using sep ne tag_not_next by (rule closing_here_append)
        moreover have "\<not> closing_here ?u" using cH 1 by (simp add: closing_at_def)
        moreover have "drop j ?s = ?u @ ?r" using 1 by simp
        ultimately show ?thesis by simp
      next
        case 2
        let ?k = "j - length H"
        have k: "?k < length CONTENT_TAG" using 2 by linarith
        have "drop j ?s = drop ?k CONTENT_TAG @ (OLD @ ?Fin)" using 2 by simp
        moreover have "\<not> prefix DIV_CLOSE (drop ?k CONTENT_TAG @ (OLD @ ?Fin))"
          using k by (rule tag_suffix_no_div)
        ultimately show ?thesis by (simp add: closing_here_steps)
      next
        case 3
        let ?k = "j - length H - length CONTENT_TAG"
        let ?u = "drop ?k OLD"
        have k: "?k < length OLD" using 3 j by linarith
        have ne: "?u \<noteq> []" using k by simp
        have sep: "separated ?u ?Fin" using fin60 by (intro separated_lt)
        have "closing_here (?u @ ?Fin) \<longleftrightarrow> closing_here ?u"
          using sep ne final_not_next(1) [of "DIV_CLOSE @ BODY_CLOSE"] final_not_next(2) [of "[]"]
          by (intro closing_here_append) simp_all
        moreover have "\<not> closing_here ?u" using cO k by (simp add: closing_at_def)
        moreover have "drop j ?s = ?u @ ?Fin" using 3 j by simp
        ultimately show ?thesis by simp
      qed
    qed
    then have "\<forall>j<?p. \<not> closing_at ?s j" by (simp add: closing_at_def)
    then show ?thesis using at by (simp add: first_closing_def)
  qed
  have tk: "take ?p ?s = H @ CONTENT_TAG @ OLD" by simp
  have "CONTENT_TAG = butlast CONTENT_TAG @ [62]" by (simp add: CONTENT_TAG_Cons)
  then have e: "H @ CONTENT_TAG @ OLD = (H @ butlast CONTENT_TAG) @ 62 # OLD"
    by (metis append.assoc append_Cons append_Nil)
  have "trailing_ws (H @ CONTENT_TAG @ OLD) = trailing_ws ((H @ butlast CONTENT_TAG) @ 62 # OLD)"
    by (rule arg_cong [OF e])
  also have "\<dots> = trailing_ws OLD" by (rule trailing_ws_after_nonspace) simp
  finally have tw: "trailing_ws (H @ CONTENT_TAG @ OLD) = trailing_ws OLD" .
  have "read_existing_html ?s = (take (length H) ?s @ CONTENT_TAG,
          trailing_ws (take ?p ?s) @ drop ?p ?s)"
    using occ clo by (rule splitter_located)
  then show ?thesis unfolding tk tw by simp
qed

lemma trailing_ws_suffix: "suffix (trailing_ws t) t"
proof -
  have "rev t = takeWhile is_space (rev t) @ dropWhile is_space (rev t)" by simp
  then have "t = rev (dropWhile is_space (rev t)) @ rev (takeWhile is_space (rev t))"
    by (metis rev_append rev_rev_ident)
  then show ?thesis unfolding trailing_ws_def suffix_def by blast
qed

lemma no_quote_no_tag: "34 \<notin> set s \<Longrightarrow> \<not> occurs_at CONTENT_TAG s k"
proof
  assume a: "34 \<notin> set s" and "occurs_at CONTENT_TAG s k"
  then obtain t where "drop k s = CONTENT_TAG @ t" by (auto simp: occurs_at_def prefix_def)
  then have "34 \<in> set (drop k s)" by (simp add: CONTENT_TAG_Cons)
  then show False using a by (meson in_set_dropD)
qed

lemma no_slash_no_closing: "47 \<notin> set s \<Longrightarrow> \<not> closing_at s k"
proof
  assume a: "47 \<notin> set s" and "closing_at s k"
  then have "prefix DIV_CLOSE (drop k s)" by (simp add: closing_at_def closing_here_def)
  then obtain t where "drop k s = DIV_CLOSE @ t" by (auto simp: prefix_def)
  then have "47 \<in> set (drop k s)" by (simp add: DIV_CLOSE_Cons)
  then show False using a by (meson in_set_dropD)
qed

text \<open>
  Claim C1, as amended. Whenever the text contains the opening tag and the closing sequence
  (\<open></div>\<close>, \<open></div>\<close>, \<open></body>\<close> separated only by whitespace), the splitter returns
  as header the text up to and including the first occurrence of the opening tag, and as
  footer the run of whitespace that precedes the first closing sequence followed by the
  rest of the text. For the document \<open>H<div class="content">OLD</div></div></body>\<close>, where
  \<open>H\<close> contains neither the opening tag nor a closing sequence and \<open>OLD\<close> contains no
  closing sequence, the header is \<open>H<div class="content">\<close> and the footer is the
  whitespace that ends \<open>OLD\<close> followed by \<open></div></div></body>\<close>; the footer is the bare
  closing text exactly when \<open>OLD\<close> is empty or does not end in whitespace.
\<close>

theorem splitter_boundaries:
  "((\<exists>k. occurs_at CONTENT_TAG s k) \<and> (\<exists>k. closing_at s k) \<longrightarrow>
      (\<exists>i p. first_occurrence CONTENT_TAG s i \<and> first_closing s p \<and>
         read_existing_html s =
           (take i s @ CONTENT_TAG, trailing_ws (take p s) @ drop p s))) \<and>
   ((\<forall>k. \<not> occurs_at CONTENT_TAG H k) \<and> (\<forall>k. \<not> closing_at H k) \<and>
    (\<forall>k. \<not> closing_at OLD k) \<longrightarrow>
      read_existing_html (H @ CONTENT_TAG @ OLD @ DIV_CLOSE @ DIV_CLOSE @ BODY_CLOSE) =
        (H @ CONTENT_TAG, trailing_ws OLD @ DIV_CLOSE @ DIV_CLOSE @ BODY_CLOSE) \<and>
      suffix (trailing_ws OLD) OLD \<and> list_all is_space (trailing_ws OLD) \<and>
      (trailing_ws OLD = [] \<longleftrightarrow> OLD = [] \<or> \<not> is_space (last OLD)))"
proof (intro conjI impI)
  assume "(\<exists>k. occurs_at CONTENT_TAG s k) \<and> (\<exists>k. closing_at s k)"
  then obtain i p where ip: "first_occurrence CONTENT_TAG s i" "first_closing s p"
    using first_occurrence_exists [of CONTENT_TAG s] first_closing_exists [of s] by blast
  then have "read_existing_html s = (take i s @ CONTENT_TAG, trailing_ws (take p s) @ drop p s)"
    by (rule splitter_located)
  then show "\<exists>i p. first_occurrence CONTENT_TAG s i \<and> first_closing s p \<and>
         read_existing_html s = (take i s @ CONTENT_TAG, trailing_ws (take p s) @ drop p s)"
    using ip by blast
next
  assume "(\<forall>k. \<not> occurs_at CONTENT_TAG H k) \<and> (\<forall>k. \<not> closing_at H k) \<and>
    (\<forall>k. \<not> closing_at OLD k)"
  then show "read_existing_html (H @ CONTENT_TAG @ OLD @ DIV_CLOSE @ DIV_CLOSE @ BODY_CLOSE) =
        (H @ CONTENT_TAG, trailing_ws OLD @ DIV_CLOSE @ DIV_CLOSE @ BODY_CLOSE)"
    by (intro delimited_document) simp_all
next
  show "suffix (trailing_ws OLD) OLD" by (rule trailing_ws_suffix)
next
  show "list_all is_space (trailing_ws OLD)" using trailing_ws_all by (simp add: list_all_iff)
next
  show "trailing_ws OLD = [] \<longleftrightarrow> OLD = [] \<or> \<not> is_space (last OLD)"
    by (rule trailing_ws_Nil_iff)
qed

theorem splitter_boundaries_witness:
  \<open>(\<exists>k. occurs_at CONTENT_TAG (lit ''<html><body><div class="content">old </div></div></body>'') k) \<and>
   (\<exists>k. closing_at (lit ''<html><body><div class="content">old </div></div></body>'') k) \<and>
   (\<forall>k. \<not> occurs_at CONTENT_TAG (lit ''<html><body>'') k) \<and>
   (\<forall>k. \<not> closing_at (lit ''<html><body>'') k) \<and>
   (\<forall>k. \<not> closing_at (lit ''old '') k) \<and>
   (\<exists>i p. first_occurrence CONTENT_TAG
            (lit ''<html><body><div class="content">old </div></div></body>'') i \<and>
          first_closing (lit ''<html><body><div class="content">old </div></div></body>'') p) \<and>
   read_existing_html (lit ''<html><body><div class="content">old </div></div></body>'') =
     (lit ''<html><body><div class="content">'', lit '' </div></div></body>'')\<close>
proof -
  let ?s = \<open>lit ''<html><body><div class="content">old </div></div></body>''\<close>
  have s: "?s = lit ''<html><body>'' @ CONTENT_TAG @ lit ''old '' @
             DIV_CLOSE @ DIV_CLOSE @ BODY_CLOSE"
    by (simp add: lit_def CONTENT_TAG_def DIV_CLOSE_def BODY_CLOSE_def)
  have o: "occurs_at CONTENT_TAG ?s 12"
    by (simp add: occurs_at_def lit_def CONTENT_TAG_def)
  have c: "closing_at ?s 37"
    by (simp add: closing_at_def closing_here_def lit_def DIV_CLOSE_def BODY_CLOSE_def)
  have h1: "\<forall>k. \<not> occurs_at CONTENT_TAG (lit ''<html><body>'') k"
    by (intro allI no_quote_no_tag) (simp add: lit_def)
  have h2: "\<forall>k. \<not> closing_at (lit ''<html><body>'') k"
    by (intro allI no_slash_no_closing) (simp add: lit_def)
  have h3: "\<forall>k. \<not> closing_at (lit ''old '') k"
    by (intro allI no_slash_no_closing) (simp add: lit_def)
  have t: "trailing_ws (lit ''old '') = lit '' ''"
    by (simp add: trailing_ws_def lit_def is_space_def)
  have r: \<open>read_existing_html ?s =
     (lit ''<html><body><div class="content">'', lit '' </div></div></body>'')\<close>
    using splitter_boundaries [of ?s "lit ''<html><body>''" "lit ''old ''"] h1 h2 h3
    unfolding s t by (simp add: lit_def CONTENT_TAG_def DIV_CLOSE_def BODY_CLOSE_def)
  have e: "\<exists>i p. first_occurrence CONTENT_TAG ?s i \<and> first_closing ?s p"
    using splitter_boundaries [of ?s "[]" "[]"] o c by blast
  show ?thesis using o c h1 h2 h3 r e by blast
qed

theorem verbatim_footer_counterexample:
  \<open>read_existing_html (lit ''<html><body><div class="content">old\<newline></div></div></body>'') =
     (lit ''<html><body><div class="content">'', lit ''\<newline></div></div></body>'') \<and>
   snd (read_existing_html (lit ''<html><body><div class="content">old\<newline></div></div></body>''))
     \<noteq> lit ''</div></div></body>'' \<and>
   \<not> closing_at (lit ''old\<newline>'') 0 \<and> \<not> closing_at (lit ''old\<newline>'') 1 \<and>
   \<not> closing_at (lit ''old\<newline>'') 2 \<and> \<not> closing_at (lit ''old\<newline>'') 3 \<and>
   \<not> closing_at (lit ''old\<newline>'') 4\<close>
  by (simp add: splitter_eval closing_at_def closing_here_def)

end
